theory Spec2Isabelle
  imports
    Main
    "HOL-Library.Sublist"
    "HOL-Library.Char_ord"
    "HOL-Library.List_Lexorder"
    "HOL-Library.Product_Lexorder"
    "HOL-Library.Multiset"
begin

section \<open>Python strings\<close>

text \<open>
  A Python \<open>str\<close> is modelled as a \<^typ>\<open>string\<close>: a list of characters, each a code
  point below 256.  The character classes of \<open>str.isspace\<close>, \<open>str.isalpha\<close> and
  \<open>str.isdigit\<close> are the Unicode classes restricted to that range.
\<close>

definition isspace :: "char \<Rightarrow> bool" where
  \<comment> \<open>TAB, LF, VT, FF, CR, FS, GS, RS, US, SPACE, NEL, NBSP\<close>
  "isspace c = (of_char c \<in> {9, 10, 11, 12, 13, 28, 29, 30, 31, 32, 133, 160 :: nat})"

definition isalpha :: "char \<Rightarrow> bool" where
  "isalpha c = (let n = of_char c :: nat in
     (65 \<le> n \<and> n \<le> 90) \<or> (97 \<le> n \<and> n \<le> 122) \<or> n = 170 \<or> n = 181 \<or> n = 186 \<or>
     (192 \<le> n \<and> n \<le> 214) \<or> (216 \<le> n \<and> n \<le> 246) \<or> (248 \<le> n \<and> n \<le> 255))"

definition isdigit :: "char \<Rightarrow> bool" where
  "isdigit c = (let n = of_char c :: nat in
     (48 \<le> n \<and> n \<le> 57) \<or> n = 178 \<or> n = 179 \<or> n = 185)"

definition lstrip :: "string \<Rightarrow> string" where
  "lstrip s = dropWhile isspace s"

definition rstrip :: "string \<Rightarrow> string" where
  "rstrip s = rev (dropWhile isspace (rev s))"

definition strip :: "string \<Rightarrow> string" where
  "strip s = rstrip (lstrip s)"

definition startswith :: "string \<Rightarrow> string \<Rightarrow> bool" where
  "startswith s p = prefix p s"

text \<open>The operator \<open>sub in s\<close> on strings.\<close>

fun str_in :: "string \<Rightarrow> string \<Rightarrow> bool" where
  "str_in sub [] = (sub = [])"
| "str_in sub (c # cs) = (prefix sub (c # cs) \<or> str_in sub cs)"

datatype py_error = IndexError | ValueError

definition str_of_error :: "py_error \<Rightarrow> string" where
  "str_of_error e = (case e of IndexError \<Rightarrow> ''list index out of range''
                             | ValueError \<Rightarrow> ''empty separator'')"

text \<open>List indexing \<open>xs[i]\<close> with a non-negative index raises \<open>IndexError\<close> out of range.\<close>

definition py_index :: "'a list \<Rightarrow> nat \<Rightarrow> py_error + 'a" where
  "py_index xs i = (if i < length xs then Inr (xs ! i) else Inl IndexError)"

text \<open>
  \<open>s.split(sep, maxsplit)\<close>: the scan from the left; \<open>k\<close> is the number of splits still
  allowed (\<open>None\<close> for no limit), \<open>cur\<close> the piece being collected.
\<close>

function split_scan :: "string \<Rightarrow> nat option \<Rightarrow> string \<Rightarrow> string \<Rightarrow> string list" where
  "split_scan sep k cur [] = [cur]"
| "split_scan sep k cur (c # cs) =
     (if sep \<noteq> [] \<and> k \<noteq> Some 0 \<and> prefix sep (c # cs)
      then cur # split_scan sep (map_option (\<lambda>n. n - 1) k) [] (drop (length sep) (c # cs))
      else split_scan sep k (cur @ [c]) cs)"
  by pat_completeness auto
termination
  by (relation "measure (\<lambda>(sep, k, cur, s). length s)") (auto simp: neq_Nil_conv)

definition str_split :: "string \<Rightarrow> nat option \<Rightarrow> string \<Rightarrow> py_error + string list" where
  "str_split sep maxsplit s = (if sep = [] then Inl ValueError else Inr (split_scan sep maxsplit [] s))"

text \<open>\<open>s.replace(old, new)\<close>: every non-overlapping occurrence, found from the left.\<close>

function replace_scan :: "string \<Rightarrow> string \<Rightarrow> string \<Rightarrow> string" where
  "replace_scan old new [] = []"
| "replace_scan old new (c # cs) =
     (if old \<noteq> [] \<and> prefix old (c # cs)
      then new @ replace_scan old new (drop (length old) (c # cs))
      else c # replace_scan old new cs)"
  by pat_completeness auto
termination
  by (relation "measure (\<lambda>(old, new, s). length s)") (auto simp: neq_Nil_conv)

definition str_replace :: "string \<Rightarrow> string \<Rightarrow> string \<Rightarrow> string" where
  "str_replace old new s =
     (if old = [] then new @ concat (map (\<lambda>c. c # new) s) else replace_scan old new s)"

text \<open>\<open>sep.join(xs)\<close>\<close>

fun str_join :: "string \<Rightarrow> string list \<Rightarrow> string" where
  "str_join sep [] = []"
| "str_join sep [x] = x"
| "str_join sep (x # y # ys) = x @ sep @ str_join sep (y # ys)"

text \<open>
  \<open>s.splitlines()\<close>: a line ends at LF, VT, FF, CR, CR LF, FS, GS, RS or NEL; the text
  after the last line end is a line only when it is not empty.
\<close>

definition is_linebreak :: "char \<Rightarrow> bool" where
  "is_linebreak c = (of_char c \<in> {10, 11, 12, 13, 28, 29, 30, 133 :: nat})"

fun splitlines_scan :: "string \<Rightarrow> string \<Rightarrow> string list" where
  "splitlines_scan cur [] = (if cur = [] then [] else [cur])"
| "splitlines_scan cur (c # cs) =
     (if c = CHR 0x0D \<and> cs \<noteq> [] \<and> hd cs = CHR 0x0A then cur # splitlines_scan [] (tl cs)
      else if is_linebreak c then cur # splitlines_scan [] cs
      else splitlines_scan (cur @ [c]) cs)"

definition splitlines :: "string \<Rightarrow> string list" where
  "splitlines s = splitlines_scan [] s"

section \<open>Rules\<close>

type_synonym rule = "string \<times> string"

definition hide_decl :: string where
  "hide_decl = ''display: none !important''"

subsection \<open>dedupe_rules\<close>

text \<open>The loop of \<open>dedupe_rules\<close>: \<open>seen\<close> is the set, \<open>unique\<close> the list built so far.\<close>

fun dedupe_loop :: "rule list \<Rightarrow> rule set \<Rightarrow> rule list \<Rightarrow> rule list" where
  "dedupe_loop [] seen unique = unique"
| "dedupe_loop (r # rs) seen unique =
     (if r \<notin> seen then dedupe_loop rs (insert r seen) (unique @ [r])
      else dedupe_loop rs seen unique)"

definition sort_key_rule :: "rule \<Rightarrow> bool \<times> string" where
  "sort_key_rule x = (snd x \<noteq> hide_decl, fst x)"

definition dedupe_rules :: "rule list \<Rightarrow> rule list" where
  "dedupe_rules rules = sort_key sort_key_rule (dedupe_loop rules {} [])"

text \<open>
  The reading of the specification: a rule is removed when it equals an earlier rule of the
  sequence, so the rules kept are those at the positions of first occurrences.
\<close>

definition first_occurrences :: "'a list \<Rightarrow> 'a list" where
  "first_occurrences rs =
     map (\<lambda>i. rs ! i) (filter (\<lambda>i. rs ! i \<notin> set (take i rs)) [0..<length rs])"


section \<open>Document generation\<close>

text \<open>
  \<open>d[k].append(v)\<close> on a \<open>defaultdict(list)\<close>.  A dictionary keeps its keys in insertion
  order, so it is an association list: a key already present keeps its place, a new key
  goes to the end.
\<close>

fun dd_append :: "'k \<Rightarrow> 'v \<Rightarrow> ('k \<times> 'v list) list \<Rightarrow> ('k \<times> 'v list) list" where
  "dd_append k v [] = [(k, [v])]"
| "dd_append k v ((k', vs) # m) =
     (if k' = k then (k', vs @ [v]) # m else (k', vs) # dd_append k v m)"

subsection \<open>generate_usercss\<close>

definition usercss_header :: "string \<Rightarrow> string" where
  "usercss_header name =
     ''/* ==UserStyle==\<newline>'' @
     ''@name           '' @ name @ '' - Cleanup\<newline>'' @
     ''@namespace      ublock-to-stylus-converter\<newline>'' @
     ''@version        1.0.0\<newline>'' @
     ''@description    Converted from uBlock Origin cosmetic filters\<newline>'' @
     ''@author         uBlock Converter\<newline>'' @
     ''@license        MIT\<newline>'' @
     ''==/UserStyle== */\<newline>'' @
     ''\<newline>''"

definition css_groups :: "rule list \<Rightarrow> (string \<times> string list) list" where
  "css_groups rules = fold (\<lambda>(selector, css_props) groups. dd_append css_props selector groups) rules []"

definition css_block :: "string \<times> string list \<Rightarrow> string" where
  "css_block g = (case g of (css_props, selectors) \<Rightarrow>
     (let selector_block = str_join '',\<newline>    '' selectors
      in ''    '' @ selector_block @ '' {\<newline>        '' @ css_props @ '';\<newline>    }''))"

definition css_blocks :: "rule list \<Rightarrow> string list" where
  "css_blocks rules = map css_block (css_groups rules)"

definition all_rules :: "rule list \<Rightarrow> string" where
  "all_rules rules = str_join ''\<newline>\<newline>'' (css_blocks rules)"

definition generate_usercss :: "string \<Rightarrow> rule list \<Rightarrow> bool \<Rightarrow> string" where
  "generate_usercss name rules is_global =
     (let css_body =
        (if is_global then all_rules rules
         else ''@-moz-document domain(\"'' @ name @ ''\") {\<newline>'' @ all_rules rules @ ''\<newline>}'')
      in usercss_header name @ css_body)"

text \<open>
  The reading of the specification: one group for each declaration, in the order in which
  the declarations are first seen, holding the selectors of the rules with that declaration.
\<close>

definition selectors_of :: "rule list \<Rightarrow> string \<Rightarrow> string list" where
  "selectors_of rules d = map fst (filter (\<lambda>r. snd r = d) rules)"

definition grouped_by_declaration :: "rule list \<Rightarrow> (string \<times> string list) list" where
  "grouped_by_declaration rules =
     map (\<lambda>d. (d, selectors_of rules d)) (first_occurrences (map snd rules))"

text \<open>How often a selector stands in the selector lists of all blocks together.\<close>

definition selector_occurrences :: "rule list \<Rightarrow> string \<Rightarrow> nat" where
  "selector_occurrences rules s = sum_list (map (\<lambda>g. count_list (snd g) s) (css_groups rules))"

subsection \<open>sanitize_filename\<close>

definition safe_char :: "char \<Rightarrow> bool" where
  "safe_char c = (isalpha c \<or> isdigit c \<or> c \<in> set [CHR '' '', CHR ''.'', CHR ''_'', CHR ''-''])"

definition sanitize_filename :: "string \<Rightarrow> string" where
  "sanitize_filename filename =
     (let filename = str_replace ''http://'' [] (str_replace ''https://'' [] (str_replace ''www.'' [] filename))
      in rstrip (filter safe_char filename))"

text \<open>
  The text before and after the leftmost occurrence of \<open>sub\<close>, and the two readings of
  "removing" a substring: the first occurrence only, or every occurrence found from
  the left, each search starting after the occurrence removed before.
\<close>

fun find_first :: "string \<Rightarrow> string \<Rightarrow> (string \<times> string) option" where
  "find_first sub [] = (if sub = [] then Some ([], []) else None)"
| "find_first sub (c # cs) =
     (if prefix sub (c # cs) then Some ([], drop (length sub) (c # cs))
      else map_option (\<lambda>(a, b). (c # a, b)) (find_first sub cs))"

definition remove_first :: "string \<Rightarrow> string \<Rightarrow> string" where
  "remove_first sub s = (case find_first sub s of None \<Rightarrow> s | Some (a, b) \<Rightarrow> a @ b)"

definition sanitize_first_only :: "string \<Rightarrow> string" where
  "sanitize_first_only s =
     rstrip (filter safe_char (remove_first ''http://'' (remove_first ''https://'' (remove_first ''www.'' s))))"

fun remove_every_fuel :: "nat \<Rightarrow> string \<Rightarrow> string \<Rightarrow> string" where
  "remove_every_fuel 0 sub s = s"
| "remove_every_fuel (Suc n) sub s =
     (case find_first sub s of None \<Rightarrow> s | Some (a, b) \<Rightarrow> a @ remove_every_fuel n sub b)"

definition remove_every :: "string \<Rightarrow> string \<Rightarrow> string" where
  "remove_every sub s = (if sub = [] then s else remove_every_fuel (length s) sub s)"

subsection \<open>generate_stylus_json\<close>

datatype json =
    JBool bool
  | JInt int
  | JStr string
  | JList "json list"
  | JObj "(string \<times> json) list"

definition settings_obj :: json where
  "settings_obj = JObj [
     (''settings'', JObj [
        (''disableAll'', JBool False),
        (''exposeIframes'', JBool False),
        (''newStyleAsUsercss'', JBool False),
        (''openEditInWindow'', JBool False),
        (''show-badge'', JBool True),
        (''styleViaASS'', JBool False),
        (''urlInstaller'', JBool True),
        (''sync.enabled'', JStr ''none''),
        (''updateInterval'', JInt 24)]),
     (''order'', JObj [(''main'', JList []), (''prio'', JList [])])]"

text \<open>
  \<open>now\<close> is the value of \<open>int(time.time() * 1000)\<close> and \<open>uuid\<close> that of
  \<open>str(uuid.uuid4())\<close> at the call; \<open>domains\<close> is \<open>None\<close> or a list.
\<close>

definition create_stylus_style_entry ::
  "int \<Rightarrow> string \<Rightarrow> string \<Rightarrow> rule list \<Rightarrow> string list option \<Rightarrow> int \<Rightarrow> bool \<Rightarrow> json" where
  "create_stylus_style_entry now uuid name rules domains style_id is_global =
     (let css_code =
        (if is_global then ''/* Rules converted from uBlock Origin */\<newline>\<newline>'' @ all_rules rules
         else ''/* Rules for '' @ name @ '' */\<newline>\<newline>'' @ all_rules rules);
        section =
          (if \<not> is_global \<and> domains \<noteq> None \<and> domains \<noteq> Some []
           then [(''code'', JStr css_code), (''domains'', JList (map JStr (the domains)))]
           else [(''code'', JStr css_code)])
      in JObj [
        (''enabled'', JBool True),
        (''installDate'', JInt now),
        (''name'', JStr name),
        (''sections'', JList [JObj section]),
        (''updateDate'', JInt now),
        (''_id'', JStr uuid),
        (''_rev'', JInt now),
        (''id'', JInt style_id)])"

text \<open>
  The clock and the identifier source are read once per call, in the order of the calls:
  \<open>clock 0\<close> gives the base id, \<open>clock (Suc idx)\<close> and \<open>uuids idx\<close> belong to
  the entry made at index \<open>idx\<close>.  A dictionary is the list of its items.
\<close>

definition domain_entry :: "(nat \<Rightarrow> int) \<Rightarrow> (nat \<Rightarrow> string) \<Rightarrow> int \<Rightarrow> nat \<times> string \<times> rule list \<Rightarrow> json" where
  "domain_entry clock uuids base_id item = (case item of (idx, domain, rules) \<Rightarrow>
     (let unique_rules = dedupe_rules rules
      in create_stylus_style_entry (clock (Suc idx)) (uuids idx) domain unique_rules
           (Some (if \<not> startswith domain ''www.'' then [domain, ''www.'' @ domain] else [domain]))
           (base_id + int idx) False))"

definition generate_stylus_json ::
  "(nat \<Rightarrow> int) \<Rightarrow> (nat \<Rightarrow> string) \<Rightarrow> (string \<times> rule list) list \<Rightarrow> rule list \<Rightarrow> json list" where
  "generate_stylus_json clock uuids domain_map global_selectors =
     (let base_id = clock 0 mod 1000000;
          stylus_export = [settings_obj] @ map (domain_entry clock uuids base_id) (enumerate 0 domain_map)
      in if global_selectors \<noteq> [] then
           (let unique_global = dedupe_rules global_selectors
            in stylus_export @
               [create_stylus_style_entry (clock (Suc (length domain_map))) (uuids (length domain_map))
                  ''Global Rules - uBlock Converted'' unique_global None
                  (base_id + int (length domain_map)) True])
         else stylus_export)"

text \<open>Reading a field of a JSON object.\<close>

definition field :: "string \<Rightarrow> json \<Rightarrow> json option" where
  "field k j = (case j of JObj kvs \<Rightarrow> map_of kvs k | _ \<Rightarrow> None)"


section \<open>Filter parsing\<close>

subsection \<open>The pattern of a style rule\<close>

text \<open>
  \<open>re.match(r'^(.+?):style\((.+)\)$', s)\<close> by backtracking.  A dot matches every character
  but the newline.  \<open>dot_plus_greedy\<close> is \<open>(.+)\)$\<close>: the group takes one more character
  and prefers to go on; where going on fails, it ends when the rest is the closing
  parenthesis at the end of the string (\<open>$\<close> also matches before a final newline).
  \<open>dot_plus_lazy\<close> is \<open>(.+?):style\(\<close> followed by the former: the group takes one
  more character and prefers to stop.  \<open>acc\<close> holds the characters the group has taken.
\<close>

fun dot_plus_greedy :: "string \<Rightarrow> string \<Rightarrow> string option" where
  "dot_plus_greedy acc [] = None"
| "dot_plus_greedy acc (c # cs) =
     (if c = CHR ''\<newline>'' then None
      else (case dot_plus_greedy (acc @ [c]) cs of
              Some d \<Rightarrow> Some d
            | None \<Rightarrow> if cs = '')'' \<or> cs = '')\<newline>'' then Some (acc @ [c]) else None))"

fun dot_plus_lazy :: "string \<Rightarrow> string \<Rightarrow> (string \<times> string) option" where
  "dot_plus_lazy acc [] = None"
| "dot_plus_lazy acc (c # cs) =
     (if c = CHR ''\<newline>'' then None
      else (case (if prefix '':style('' cs then dot_plus_greedy [] (drop (length '':style('') cs) else None) of
              Some d \<Rightarrow> Some (acc @ [c], d)
            | None \<Rightarrow> dot_plus_lazy (acc @ [c]) cs))"

definition re_match_style :: "string \<Rightarrow> (string \<times> string) option" where
  "re_match_style s = dot_plus_lazy [] s"

text \<open>
  The reading of the specification: the selector is what stands before the last
  \<open>:style(\<close>, the declaration what stands between it and the closing parenthesis that ends
  the string; both are not empty.
\<close>

definition style_split_last :: "string \<Rightarrow> (string \<times> string) option" where
  "style_split_last s =
     (case find_first (rev '':style('') (rev s) of
        None \<Rightarrow> None
      | Some (a, b) \<Rightarrow>
          (let selector = rev b; rest = rev a
           in if selector \<noteq> [] \<and> 2 \<le> length rest \<and> last rest = CHR '')''
              then Some (selector, butlast rest) else None))"

subsection \<open>parse_filters\<close>

record parse_state =
  domain_map :: "(string \<times> rule list) list"
  global_selectors :: "rule list"
  invalid_lines :: "(nat \<times> string \<times> string) list"
  skipped_lines :: "(nat \<times> string \<times> string) list"

definition init_state :: parse_state where
  "init_state = \<lparr>domain_map = [], global_selectors = [], invalid_lines = [], skipped_lines = []\<rparr>"

definition append_invalid :: "nat \<times> string \<times> string \<Rightarrow> parse_state \<Rightarrow> parse_state" where
  "append_invalid entry st = st\<lparr>invalid_lines := invalid_lines st @ [entry]\<rparr>"

definition append_skipped :: "nat \<times> string \<times> string \<Rightarrow> parse_state \<Rightarrow> parse_state" where
  "append_skipped entry st = st\<lparr>skipped_lines := skipped_lines st @ [entry]\<rparr>"

text \<open>The end of the guarded block: the rule goes to the global list or to every domain.\<close>

definition store_rule :: "rule \<Rightarrow> string \<Rightarrow> parse_state \<Rightarrow> py_error + parse_state" where
  "store_rule rule domains_part st =
     (if domains_part = [] then Inr (st\<lparr>global_selectors := global_selectors st @ [rule]\<rparr>)
      else (case str_split '','' None domains_part of
              Inl e \<Rightarrow> Inl e
            | Inr domains \<Rightarrow>
                Inr (st\<lparr>domain_map := fold (\<lambda>domain m. dd_append (strip domain) rule m) domains (domain_map st)\<rparr>)))"

text \<open>
  The block under \<open>try\<close>.  It changes the state only in its last step, after everything
  that could raise, so a failure leaves the state as it was.
\<close>

definition try_body :: "nat \<Rightarrow> string \<Rightarrow> parse_state \<Rightarrow> py_error + parse_state" where
  "try_body line_num line st =
     (case str_split ''##'' (Some 1) line of
        Inl e \<Rightarrow> Inl e
      | Inr parts \<Rightarrow>
     (case py_index parts 0 of
        Inl e \<Rightarrow> Inl e
      | Inr p0 \<Rightarrow>
     (case py_index parts 1 of
        Inl e \<Rightarrow> Inl e
      | Inr p1 \<Rightarrow>
       (let domains_part = strip p0; selector_part = strip p1
        in if selector_part = [] then Inr (append_invalid (line_num, line, ''Empty selector'') st)
           else if str_in '':style('' selector_part then
             (case re_match_style selector_part of
                Some (g1, g2) \<Rightarrow> store_rule (strip g1, strip g2) domains_part st
              | None \<Rightarrow> Inr (append_invalid (line_num, line, ''Invalid :style() syntax'') st))
           else store_rule (selector_part, hide_decl) domains_part st))))"

text \<open>\<open>except Exception as e\<close>: the line is recorded with the text of the exception.\<close>

definition except_handler :: "py_error + parse_state \<Rightarrow> nat \<Rightarrow> string \<Rightarrow> parse_state \<Rightarrow> parse_state" where
  "except_handler result line_num line st =
     (case result of
        Inl e \<Rightarrow> append_invalid (line_num, line, str_of_error e) st
      | Inr st' \<Rightarrow> st')"

text \<open>One turn of the loop; an exception outside the guarded block would leave the loop.\<close>

definition process_line :: "nat \<Rightarrow> string \<Rightarrow> parse_state \<Rightarrow> py_error + parse_state" where
  "process_line line_num raw_line st =
     (let line = strip raw_line in
      if line = [] \<or> startswith line ''!'' then Inr st
      else if startswith line ''||'' \<or> startswith line ''@@'' \<or> startswith line ''/'' then
        Inr (append_skipped (line_num, line, ''Network filter'') st)
      else if str_in ''##'' line then
        (case str_split ''##'' None line of
           Inl e \<Rightarrow> Inl e
         | Inr pieces \<Rightarrow>
        (case py_index pieces 0 of
           Inl e \<Rightarrow> Inl e
         | Inr pre_hash \<Rightarrow>
             if str_in ''$'' pre_hash then
               Inr (append_skipped (line_num, line, ''Network filter with options'') st)
             else Inr (except_handler (try_body line_num line st) line_num line st)))
      else if str_in ''$'' line \<or> startswith line ''|'' then
        Inr (append_skipped (line_num, line, ''Network filter'') st)
      else Inr (append_invalid (line_num, line, ''Missing ## separator'') st))"

fun parse_loop :: "nat \<Rightarrow> string list \<Rightarrow> parse_state \<Rightarrow> py_error + parse_state" where
  "parse_loop line_num [] st = Inr st"
| "parse_loop line_num (line # rest) st =
     (case process_line line_num line st of
        Inl e \<Rightarrow> Inl e
      | Inr st' \<Rightarrow> parse_loop (Suc line_num) rest st')"

definition parse_filters :: "string \<Rightarrow> py_error + parse_state" where
  "parse_filters raw_text = parse_loop 1 (splitlines (strip raw_text)) init_state"

text \<open>
  A line counts when it is not empty and not a comment after trimming.  What a line does is
  read off the state it leaves when it is processed alone.
\<close>

definition relevant_line :: "string \<Rightarrow> bool" where
  "relevant_line raw_line = (strip raw_line \<noteq> [] \<and> \<not> startswith (strip raw_line) ''!'')"

definition adds_rule :: "string \<Rightarrow> bool" where
  "adds_rule raw_line =
     (case process_line 0 raw_line init_state of
        Inl e \<Rightarrow> False
      | Inr st \<Rightarrow> domain_map st \<noteq> [] \<or> global_selectors st \<noteq> [])"

definition adds_invalid :: "string \<Rightarrow> bool" where
  "adds_invalid raw_line =
     (case process_line 0 raw_line init_state of Inl e \<Rightarrow> False | Inr st \<Rightarrow> invalid_lines st \<noteq> [])"

definition adds_skipped :: "string \<Rightarrow> bool" where
  "adds_skipped raw_line =
     (case process_line 0 raw_line init_state of Inl e \<Rightarrow> False | Inr st \<Rightarrow> skipped_lines st \<noteq> [])"

text \<open>All rules of a state, and the number of rule entries under the domains.\<close>

definition rules_of :: "parse_state \<Rightarrow> rule set" where
  "rules_of st = set (global_selectors st) \<union> (\<Union>entry \<in> set (domain_map st). set (snd entry))"

definition clean_selector :: "rule \<Rightarrow> bool" where
  "clean_selector r = (fst r \<noteq> [] \<and> \<not> isspace (hd (fst r)) \<and> \<not> isspace (last (fst r)))"


text \<open>
  The shape of the pattern: a selector and a declaration, both not empty, around
  \<open>:style(\<close> and before the closing parenthesis that ends the string.
\<close>

definition style_shape :: "string \<Rightarrow> string \<Rightarrow> string \<Rightarrow> bool" where
  "style_shape s selector declaration =
     (selector \<noteq> [] \<and> declaration \<noteq> [] \<and> s = selector @ '':style('' @ declaration @ '')'')"


text \<open>
  What one line does to the state: nothing, one more skipped line, one more invalid line,
  or one rule stored globally or under the domains of a list.
\<close>

datatype line_effect =
    Ignored
  | Skipped string
  | Invalid string
  | Global_Rule rule
  | Domain_Rule rule "string list"

fun apply_effect :: "line_effect \<Rightarrow> nat \<Rightarrow> string \<Rightarrow> parse_state \<Rightarrow> parse_state" where
  "apply_effect Ignored n line st = st"
| "apply_effect (Skipped reason) n line st = append_skipped (n, line, reason) st"
| "apply_effect (Invalid reason) n line st = append_invalid (n, line, reason) st"
| "apply_effect (Global_Rule r) n line st = st\<lparr>global_selectors := global_selectors st @ [r]\<rparr>"
| "apply_effect (Domain_Rule r ds) n line st =
     st\<lparr>domain_map := fold (\<lambda>domain m. dd_append (strip domain) r m) ds (domain_map st)\<rparr>"

fun effect_ok :: "line_effect \<Rightarrow> bool" where
  "effect_ok (Global_Rule r) = clean_selector r"
| "effect_ok (Domain_Rule r ds) = (clean_selector r \<and> ds \<noteq> [])"
| "effect_ok _ = True"

definition entry_count :: "('k \<times> 'v list) list \<Rightarrow> nat" where
  "entry_count m = sum_list (map (\<lambda>e. length (snd e)) m)"

fun is_rule :: "line_effect \<Rightarrow> bool" where
  "is_rule (Global_Rule r) = True"
| "is_rule (Domain_Rule r ds) = True"
| "is_rule _ = False"

fun is_invalid :: "line_effect \<Rightarrow> bool" where
  "is_invalid (Invalid reason) = True"
| "is_invalid _ = False"

fun is_skipped :: "line_effect \<Rightarrow> bool" where
  "is_skipped (Skipped reason) = True"
| "is_skipped _ = False"


section \<open>Properties of dedupe_rules\<close>

lemma dedupe_loop_append:
  "dedupe_loop (xs @ ys) seen u = dedupe_loop ys (seen \<union> set xs) (dedupe_loop xs seen u)"
  by (induction xs arbitrary: seen u) (auto simp: insert_absorb)

lemma first_occ_Nil: "first_occurrences [] = []"
  by (simp add: first_occurrences_def)

lemma first_occ_snoc:
  "first_occurrences (rs @ [r]) = first_occurrences rs @ (if r \<in> set rs then [] else [r])"
  unfolding first_occurrences_def
  by (auto simp: nth_append intro!: map_cong filter_cong)

lemma dedupe_loop_first_occ: "dedupe_loop rs {} [] = first_occurrences rs"
proof (induction rs rule: rev_induct)
  case Nil
  show ?case by (simp add: first_occ_Nil)
next
  case (snoc r rs)
  then show ?case by (simp add: dedupe_loop_append first_occ_snoc)
qed

lemma set_first_occ: "set (first_occurrences rs) = set rs"
  by (induction rs rule: rev_induct) (auto simp: first_occ_snoc first_occ_Nil)

lemma distinct_first_occ: "distinct (first_occurrences rs)"
  by (induction rs rule: rev_induct) (auto simp: first_occ_snoc first_occ_Nil set_first_occ)

lemma first_occ_distinct_id: "distinct rs \<Longrightarrow> first_occurrences rs = rs"
  by (induction rs rule: rev_induct) (auto simp: first_occ_snoc first_occ_Nil)

lemma mset_first_occ_le: "mset (first_occurrences rs) \<subseteq># mset rs"
  by (induction rs rule: rev_induct)
    (auto simp: first_occ_snoc first_occ_Nil intro: subset_mset.order_trans)

lemma dedupe_rules_sort: "dedupe_rules rs = sort_key sort_key_rule (first_occurrences rs)"
  by (simp add: dedupe_rules_def dedupe_loop_first_occ)

lemma key_le_iff:
  "sort_key_rule a \<le> sort_key_rule b \<longleftrightarrow>
     ((snd a = hide_decl \<and> snd b \<noteq> hide_decl) \<or>
      ((snd a = hide_decl \<longleftrightarrow> snd b = hide_decl) \<and> fst a \<le> fst b))"
  by (auto simp: sort_key_rule_def less_eq_prod_def)

text \<open>
  C6: \<open>dedupe_rules\<close> keeps exactly the first occurrence of every rule and returns these
  rules stably sorted by the two-key comparator: at positions \<open>i < j\<close> of the result, a
  hide rule at \<open>j\<close> forces a hide rule at \<open>i\<close> (hide rules come before all others), and
  two rules of the same group are in ascending selector order; rules with equal keys keep
  the order of their first occurrences.
\<close>

theorem dedupe_rules_first_sorted:
  "dedupe_rules rs = sort_key sort_key_rule (first_occurrences rs) \<and>
   mset (dedupe_rules rs) = mset (first_occurrences rs) \<and>
   (\<forall>k. filter (\<lambda>r. sort_key_rule r = k) (dedupe_rules rs) =
        filter (\<lambda>r. sort_key_rule r = k) (first_occurrences rs)) \<and>
   (\<forall>i j. i < j \<and> j < length (dedupe_rules rs) \<longrightarrow>
      (snd (dedupe_rules rs ! j) = hide_decl \<longrightarrow> snd (dedupe_rules rs ! i) = hide_decl) \<and>
      ((snd (dedupe_rules rs ! i) = hide_decl \<longleftrightarrow> snd (dedupe_rules rs ! j) = hide_decl) \<longrightarrow>
          fst (dedupe_rules rs ! i) \<le> fst (dedupe_rules rs ! j)))"
proof -
  have eq: "dedupe_rules rs = sort_key sort_key_rule (first_occurrences rs)"
    by (rule dedupe_rules_sort)
  have srt: "sorted (map sort_key_rule (dedupe_rules rs))"
    by (simp add: eq)
  have ord: "sort_key_rule (dedupe_rules rs ! i) \<le> sort_key_rule (dedupe_rules rs ! j)"
    if "i < j" "j < length (dedupe_rules rs)" for i j
    using srt that sorted_nth_mono[of "map sort_key_rule (dedupe_rules rs)" i j] by simp
  show ?thesis
  proof (intro conjI allI impI)
    show "dedupe_rules rs = sort_key sort_key_rule (first_occurrences rs)" by (rule eq)
    show "mset (dedupe_rules rs) = mset (first_occurrences rs)" by (simp add: eq)
    show "filter (\<lambda>r. sort_key_rule r = k) (dedupe_rules rs) =
          filter (\<lambda>r. sort_key_rule r = k) (first_occurrences rs)" for k
      by (simp add: eq sort_key_stable)
  next
    fix i j
    assume "i < j \<and> j < length (dedupe_rules rs)" and "snd (dedupe_rules rs ! j) = hide_decl"
    then show "snd (dedupe_rules rs ! i) = hide_decl"
      using ord[of i j] by (auto simp: key_le_iff)
  next
    fix i j
    assume "i < j \<and> j < length (dedupe_rules rs)"
      and "(snd (dedupe_rules rs ! i) = hide_decl) = (snd (dedupe_rules rs ! j) = hide_decl)"
    then show "fst (dedupe_rules rs ! i) \<le> fst (dedupe_rules rs ! j)"
      using ord[of i j] by (auto simp: key_le_iff)
  qed
qed

theorem dedupe_rules_first_sorted_witness:
  "dedupe_rules [(''b'', ''x''), (''a'', hide_decl), (''b'', ''x''), (''a'', ''y'')] =
     [(''a'', hide_decl), (''a'', ''y''), (''b'', ''x'')] \<and>
   (1::nat) < 2 \<and>
   2 < length (dedupe_rules [(''b'', ''x''), (''a'', hide_decl), (''b'', ''x''), (''a'', ''y'')]) \<and>
   fst (dedupe_rules [(''b'', ''x''), (''a'', hide_decl), (''b'', ''x''), (''a'', ''y'')] ! 1)
     \<le> fst (dedupe_rules [(''b'', ''x''), (''a'', hide_decl), (''b'', ''x''), (''a'', ''y'')] ! 2)"
proof -
  have v: "dedupe_rules [(''b'', ''x''), (''a'', hide_decl), (''b'', ''x''), (''a'', ''y'')] =
     [(''a'', hide_decl), (''a'', ''y''), (''b'', ''x'')]"
    by (simp add: dedupe_rules_def sort_key_rule_def hide_decl_def less_eq_prod_def)
  have len: "2 < length [(''a'', hide_decl), (''a'', ''y''), (''b'', ''x'')]"
    by simp
  have "fst ([(''a'', hide_decl), (''a'', ''y''), (''b'', ''x'')] ! 1)
          \<le> fst ([(''a'', hide_decl), (''a'', ''y''), (''b'', ''x'')] ! 2)"
    using dedupe_rules_first_sorted
      [of "[(''b'', ''x''), (''a'', hide_decl), (''b'', ''x''), (''a'', ''y'')]",
        THEN conjunct2, THEN conjunct2, THEN conjunct2, rule_format, of 1 2,
        THEN conjunct2, rule_format]
    unfolding v using len by (simp add: hide_decl_def)
  then show ?thesis
    unfolding v using len by simp
qed

text \<open>
  C7: \<open>dedupe_rules\<close> is idempotent, its result holds no rule twice, and the result is the
  input with every rule reduced to one copy: it has the same rules as the input, is a
  sub-multiset of it, and is a rearrangement of the first occurrences.
\<close>

theorem dedupe_rules_idempotent:
  "dedupe_rules (dedupe_rules x) = dedupe_rules x \<and>
   distinct (dedupe_rules x) \<and>
   set (dedupe_rules x) = set x \<and>
   mset (dedupe_rules x) \<subseteq># mset x \<and>
   mset (dedupe_rules x) = mset (first_occurrences x)"
proof -
  have eq: "dedupe_rules x = sort_key sort_key_rule (first_occurrences x)"
    by (rule dedupe_rules_sort)
  have d: "distinct (dedupe_rules x)"
    by (simp add: eq distinct_first_occ)
  have "dedupe_rules (dedupe_rules x) = sort_key sort_key_rule (dedupe_rules x)"
    using d by (simp add: dedupe_rules_sort[of "dedupe_rules x"] first_occ_distinct_id)
  also have "\<dots> = dedupe_rules x"
    by (rule sort_key_id_if_sorted) (simp add: eq)
  finally have idem: "dedupe_rules (dedupe_rules x) = dedupe_rules x" .
  show ?thesis
    using idem d by (simp add: eq set_first_occ mset_first_occ_le)
qed

section \<open>Properties of generate_usercss\<close>

lemma dd_append_fresh:
  "k \<notin> fst ` set m \<Longrightarrow> dd_append k v m = m @ [(k, [v])]"
  by (induction m) auto

lemma dd_append_map:
  "distinct ks \<Longrightarrow> k \<in> set ks \<Longrightarrow>
   dd_append k v (map (\<lambda>d. (d, f d)) ks) = map (\<lambda>d. (d, if d = k then f d @ [v] else f d)) ks"
proof (induction ks)
  case Nil then show ?case by simp
next
  case (Cons a ks)
  show ?case
  proof (cases "a = k")
    case True
    with Cons.prems have "k \<notin> set ks" by simp
    then have "map (\<lambda>d. (d, if d = k then f d @ [v] else f d)) ks = map (\<lambda>d. (d, f d)) ks"
      by (intro map_cong) auto
    with True show ?thesis by simp
  next
    case False
    with Cons show ?thesis by simp
  qed
qed

lemma css_groups_snoc: "css_groups (rs @ [(s, d)]) = dd_append d s (css_groups rs)"
  by (simp add: css_groups_def)

lemma selectors_of_snoc:
  "selectors_of (rs @ [(s, d)]) d' = (if d' = d then selectors_of rs d' @ [s] else selectors_of rs d')"
  by (simp add: selectors_of_def)

lemma selectors_of_notin: "d \<notin> snd ` set rs \<Longrightarrow> selectors_of rs d = []"
  by (auto simp: selectors_of_def filter_empty_conv)

lemma css_groups_grouped: "css_groups rules = grouped_by_declaration rules"
proof (induction rules rule: rev_induct)
  case Nil
  show ?case by (simp add: css_groups_def grouped_by_declaration_def first_occ_Nil)
next
  case (snoc r rs)
  obtain s d where r: "r = (s, d)" by (cases r)
  let ?ks = "first_occurrences (map snd rs)"
  have dist: "distinct ?ks" by (rule distinct_first_occ)
  have ks: "set ?ks = snd ` set rs" by (simp add: set_first_occ)
  show ?case
  proof (cases "d \<in> snd ` set rs")
    case True
    then have "dd_append d s (map (\<lambda>d. (d, selectors_of rs d)) ?ks)
        = map (\<lambda>d'. (d', if d' = d then selectors_of rs d' @ [s] else selectors_of rs d')) ?ks"
      using dist ks by (intro dd_append_map) auto
    then show ?thesis using True snoc
      by (simp add: r css_groups_snoc grouped_by_declaration_def first_occ_snoc selectors_of_snoc)
  next
    case False
    then have "d \<notin> fst ` set (map (\<lambda>d. (d, selectors_of rs d)) ?ks)"
      using ks by (auto simp: image_image)
    then have "dd_append d s (map (\<lambda>d. (d, selectors_of rs d)) ?ks)
        = map (\<lambda>d. (d, selectors_of rs d)) ?ks @ [(d, [s])]"
      by (rule dd_append_fresh)
    moreover have "map (\<lambda>d'. (d', selectors_of (rs @ [(s, d)]) d')) ?ks = map (\<lambda>d. (d, selectors_of rs d)) ?ks"
      using False ks by (intro map_cong) (auto simp: selectors_of_snoc)
    ultimately show ?thesis using False snoc
      by (simp add: r css_groups_snoc grouped_by_declaration_def first_occ_snoc selectors_of_snoc selectors_of_notin)
  qed
qed

text \<open>
  C4: the body of \<open>generate_usercss\<close> has one block for each declaration, in the order in
  which the declarations are first seen; a block is the selectors of that declaration
  joined by comma, newline and four spaces, followed by the declaration ended by a
  semicolon.  The blocks are wrapped in \<open>@-moz-document domain("name") { ... }\<close> when
  \<open>is_global\<close> is false and stand unwrapped when it is true.
\<close>

theorem generate_usercss_grouping:
  "generate_usercss name rules is_global =
     usercss_header name @
     (if is_global then str_join ''\<newline>\<newline>'' (map css_block (grouped_by_declaration rules))
      else ''@-moz-document domain(\"'' @ name @ ''\") {\<newline>'' @
           str_join ''\<newline>\<newline>'' (map css_block (grouped_by_declaration rules)) @ ''\<newline>}'') \<and>
   css_block (d, selectors) =
     ''    '' @ str_join '',\<newline>    '' selectors @ '' {\<newline>        '' @ d @ '';\<newline>    }''"
proof
  have "all_rules rules = str_join ''\<newline>\<newline>'' (map css_block (grouped_by_declaration rules))"
    by (simp add: all_rules_def css_blocks_def css_groups_grouped)
  then show "generate_usercss name rules is_global =
     usercss_header name @
     (if is_global then str_join ''\<newline>\<newline>'' (map css_block (grouped_by_declaration rules))
      else ''@-moz-document domain(\"'' @ name @ ''\") {\<newline>'' @
           str_join ''\<newline>\<newline>'' (map css_block (grouped_by_declaration rules)) @ ''\<newline>}'')"
    by (simp add: generate_usercss_def)
  show "css_block (d, selectors) =
     ''    '' @ str_join '',\<newline>    '' selectors @ '' {\<newline>        '' @ d @ '';\<newline>    }''"
    by (simp add: css_block_def)
qed

lemma count_selectors_of: "count_list (selectors_of rules d) s = count_list rules (s, d)"
  by (induction rules) (auto simp: selectors_of_def)

lemma sum_count_pairs:
  "finite D \<Longrightarrow> snd ` set rs \<subseteq> D \<Longrightarrow> (\<Sum>d\<in>D. count_list rs (s, d)) = count_list (map fst rs) s"
proof (induction rs)
  case Nil then show ?case by simp
next
  case (Cons r rs)
  obtain a b where r: "r = (a, b)" by (cases r)
  have b: "b \<in> D" using Cons.prems by (simp add: r)
  have "(\<Sum>d\<in>D. count_list (r # rs) (s, d)) = (\<Sum>d\<in>D. count_list rs (s, d) + (if d = b \<and> a = s then 1 else 0))"
    by (intro sum.cong) (auto simp: r)
  also have "\<dots> = (\<Sum>d\<in>D. count_list rs (s, d)) + (\<Sum>d\<in>D. if d = b \<and> a = s then 1 else 0)"
    by (simp add: sum.distrib)
  also have "(\<Sum>d\<in>D. if d = b \<and> a = s then 1 else 0) = (if a = s then 1 else (0::nat))"
    using Cons.prems(1) b by (cases "a = s") (simp_all)
  finally show ?case using Cons by (simp add: r)
qed

lemma selector_occurrences_count:
  "selector_occurrences rules s = count_list (map fst rules) s"
proof -
  let ?ks = "first_occurrences (map snd rules)"
  have "selector_occurrences rules s = sum_list (map (\<lambda>d. count_list rules (s, d)) ?ks)"
    by (simp add: selector_occurrences_def css_groups_grouped grouped_by_declaration_def
        comp_def count_selectors_of)
  also have "\<dots> = (\<Sum>d\<in>set ?ks. count_list rules (s, d))"
    by (rule sum_list_distinct_conv_sum_set) (rule distinct_first_occ)
  also have "\<dots> = count_list (map fst rules) s"
    by (rule sum_count_pairs) (simp_all add: set_first_occ)
  finally show ?thesis .
qed

lemma count_list_distinct_mem: "distinct xs \<Longrightarrow> x \<in> set xs \<Longrightarrow> count_list xs x = 1"
  by (induction xs) auto

text \<open>
  C3, as amended: the blocks of the output have pairwise different declarations, one for
  each declaration of the input; a selector stands in the block of declaration \<open>d\<close> as
  often as the pair of the selector and \<open>d\<close> stands in the input, and in all blocks
  together as often as it is the selector of an input rule.  When the selectors of the
  input are pairwise different, every selector of the input stands exactly once in exactly
  one block, and that block's declaration is the selector's declaration.
\<close>

theorem usercss_selector_blocks:
  "generate_usercss name rules is_global =
     usercss_header name @
     (if is_global then str_join ''\<newline>\<newline>'' (map css_block (css_groups rules))
      else ''@-moz-document domain(\"'' @ name @ ''\") {\<newline>'' @
           str_join ''\<newline>\<newline>'' (map css_block (css_groups rules)) @ ''\<newline>}'') \<and>
   distinct (map fst (css_groups rules)) \<and>
   fst ` set (css_groups rules) = snd ` set rules \<and>
   (\<forall>d sels s. (d, sels) \<in> set (css_groups rules) \<longrightarrow> count_list sels s = count_list rules (s, d)) \<and>
   (\<forall>s. selector_occurrences rules s = count_list (map fst rules) s) \<and>
   (distinct (map fst rules) \<longrightarrow>
      (\<forall>s d. (s, d) \<in> set rules \<longrightarrow>
         selector_occurrences rules s = 1 \<and>
         (\<exists>sels. (d, sels) \<in> set (css_groups rules) \<and> count_list sels s = 1) \<and>
         (\<forall>d' sels. (d', sels) \<in> set (css_groups rules) \<and> s \<in> set sels \<longrightarrow> d' = d)))"
proof -
  let ?G = "css_groups rules"
  have G: "?G = map (\<lambda>d. (d, selectors_of rules d)) (first_occurrences (map snd rules))"
    by (simp add: css_groups_grouped grouped_by_declaration_def)
  have out: "generate_usercss name rules is_global =
     usercss_header name @
     (if is_global then str_join ''\<newline>\<newline>'' (map css_block ?G)
      else ''@-moz-document domain(\"'' @ name @ ''\") {\<newline>'' @
           str_join ''\<newline>\<newline>'' (map css_block ?G) @ ''\<newline>}'')"
    by (simp add: generate_usercss_def all_rules_def css_blocks_def)
  have keys: "map fst ?G = first_occurrences (map snd rules)"
    by (simp add: G comp_def)
  have dist: "distinct (map fst ?G)"
    by (simp add: keys distinct_first_occ)
  have dom: "fst ` set ?G = snd ` set rules"
    using arg_cong[OF keys, of set] by (simp add: set_first_occ)
  have cnt: "count_list sels s = count_list rules (s, d)" if "(d, sels) \<in> set ?G" for d sels s
    using that by (auto simp: G count_selectors_of)
  have one: "selector_occurrences rules s = 1 \<and>
         (\<exists>sels. (d, sels) \<in> set ?G \<and> count_list sels s = 1) \<and>
         (\<forall>d' sels. (d', sels) \<in> set ?G \<and> s \<in> set sels \<longrightarrow> d' = d)"
    if dr: "distinct (map fst rules)" and mem: "(s, d) \<in> set rules" for s d
  proof (intro conjI allI impI)
    have s: "s \<in> set (map fst rules)" using mem by force
    show "selector_occurrences rules s = 1"
      by (simp only: selector_occurrences_count count_list_distinct_mem[OF dr s])
    have "distinct rules" using dr by (simp add: distinct_map)
    then have c1: "count_list rules (s, d) = 1" using mem by (rule count_list_distinct_mem)
    have "d \<in> fst ` set ?G" using dom mem by force
    then obtain sels where m: "(d, sels) \<in> set ?G" by auto
    with cnt[OF m, of s] c1 show "\<exists>sels. (d, sels) \<in> set ?G \<and> count_list sels s = 1" by auto
  next
    fix d' sels assume a: "(d', sels) \<in> set ?G \<and> s \<in> set sels"
    then have "count_list sels s \<noteq> 0" by (simp add: count_list_0_iff)
    then have "count_list rules (s, d') \<noteq> 0" using cnt[of d' sels s] a by simp
    then have "(s, d') \<in> set rules" by (simp add: count_list_0_iff)
    with mem dr show "d' = d" by (meson eq_key_imp_eq_value)
  qed
  show ?thesis
  proof (intro conjI allI impI)
    show "generate_usercss name rules is_global =
     usercss_header name @
     (if is_global then str_join ''\<newline>\<newline>'' (map css_block ?G)
      else ''@-moz-document domain(\"'' @ name @ ''\") {\<newline>'' @
           str_join ''\<newline>\<newline>'' (map css_block ?G) @ ''\<newline>}'')" by (rule out)
    show "distinct (map fst ?G)" by (rule dist)
    show "fst ` set ?G = snd ` set rules" by (rule dom)
    show "count_list sels s = count_list rules (s, d)" if "(d, sels) \<in> set ?G" for d sels s
      using that by (rule cnt)
    show "selector_occurrences rules s = count_list (map fst rules) s" for s
      by (rule selector_occurrences_count)
    show "selector_occurrences rules s = 1" if "distinct (map fst rules)" "(s, d) \<in> set rules" for s d
      using one[OF that] by simp
    show "\<exists>sels. (d, sels) \<in> set ?G \<and> count_list sels s = 1"
      if "distinct (map fst rules)" "(s, d) \<in> set rules" for s d
      using one[OF that] by simp
    show "d' = d"
      if "distinct (map fst rules)" "(s, d) \<in> set rules" "(d', sels) \<in> set ?G \<and> s \<in> set sels" for s d d' sels
      using one[OF that(1,2)] that(3) by blast
  qed
qed


theorem usercss_selector_blocks_witness:
  "distinct (map fst [(''a'', ''x''), (''b'', ''y''), (''c'', ''x'')]) \<and>
   (''c'', ''x'') \<in> set [(''a'', ''x''), (''b'', ''y''), (''c'', ''x'')] \<and>
   css_groups [(''a'', ''x''), (''b'', ''y''), (''c'', ''x'')] = [(''x'', [''a'', ''c'']), (''y'', [''b''])] \<and>
   selector_occurrences [(''a'', ''x''), (''b'', ''y''), (''c'', ''x'')] ''c'' = 1"
proof -
  have d: "distinct (map fst [(''a'', ''x''), (''b'', ''y''), (''c'', ''x'')])"
    by simp
  have m: "(''c'', ''x'') \<in> set [(''a'', ''x''), (''b'', ''y''), (''c'', ''x'')]"
    by simp
  have g: "css_groups [(''a'', ''x''), (''b'', ''y''), (''c'', ''x'')] = [(''x'', [''a'', ''c'']), (''y'', [''b''])]"
    by (simp add: css_groups_def)
  have "selector_occurrences [(''a'', ''x''), (''b'', ''y''), (''c'', ''x'')] ''c'' = 1"
    using usercss_selector_blocks [of "''n''" "[(''a'', ''x''), (''b'', ''y''), (''c'', ''x'')]" True,
        THEN conjunct2, THEN conjunct2, THEN conjunct2, THEN conjunct2, THEN conjunct2,
        rule_format, OF d m]
    by (rule conjunct1)
  with d m g show ?thesis by blast
qed

text \<open>
  C3 as stated fails: a selector with two declarations stands in two blocks, also in a
  rule list that \<open>dedupe_rules\<close> leaves as it is.
\<close>

lemma two_blocks_groups:
  "css_groups [(''a'', ''x''), (''a'', ''y'')] = [(''x'', [''a'']), (''y'', [''a''])]"
  by (simp add: css_groups_def)

lemma two_blocks_dedupe:
  "dedupe_rules [(''a'', ''x''), (''a'', ''y'')] = [(''a'', ''x''), (''a'', ''y'')]"
  by (simp add: dedupe_rules_def sort_key_rule_def hide_decl_def less_eq_prod_def)

lemma two_blocks_output:
  "generate_usercss ''n'' [(''a'', ''x''), (''a'', ''y'')] True =
     usercss_header ''n'' @
     ''    a {\<newline>        x;\<newline>    }\<newline>\<newline>    a {\<newline>        y;\<newline>    }''"
  by (simp add: generate_usercss_def all_rules_def css_blocks_def css_block_def two_blocks_groups)

theorem selector_in_two_blocks:
  "dedupe_rules [(''a'', ''x''), (''a'', ''y'')] = [(''a'', ''x''), (''a'', ''y'')] \<and>
   css_groups [(''a'', ''x''), (''a'', ''y'')] = [(''x'', [''a'']), (''y'', [''a''])] \<and>
   selector_occurrences [(''a'', ''x''), (''a'', ''y'')] ''a'' = 2 \<and>
   selector_occurrences [(''a'', ''x''), (''a'', ''y'')] ''a'' \<noteq> 1 \<and>
   generate_usercss ''n'' [(''a'', ''x''), (''a'', ''y'')] True =
     usercss_header ''n'' @
     ''    a {\<newline>        x;\<newline>    }\<newline>\<newline>    a {\<newline>        y;\<newline>    }''"
proof -
  have "selector_occurrences [(''a'', ''x''), (''a'', ''y'')] ''a'' = 2"
    by (simp add: selector_occurrences_def two_blocks_groups)
  then show ?thesis
    using two_blocks_groups two_blocks_dedupe two_blocks_output by simp
qed

section \<open>Properties of sanitize_filename\<close>

lemma find_first_None: "find_first sub s = None \<Longrightarrow> replace_scan sub new s = s"
  by (induction s) (auto split: if_splits)

lemma find_first_split:
  "find_first sub s = Some (a, b) \<Longrightarrow> s = a @ sub @ b"
proof (induction s arbitrary: a)
  case Nil
  then show ?case by (simp split: if_splits)
next
  case (Cons c cs)
  show ?case
  proof (cases "prefix sub (c # cs)")
    case True
    then have "take (length sub) (c # cs) = sub" by (auto simp: prefix_def)
    then have "c # cs = sub @ drop (length sub) (c # cs)" by (metis append_take_drop_id)
    moreover have "a = []" "b = drop (length sub) (c # cs)" using True Cons.prems(1) by auto
    ultimately show ?thesis by simp
  next
    case False
    with Cons.prems obtain a' where a': "find_first sub cs = Some (a', b)" "a = c # a'"
      by auto
    from Cons.IH[OF a'(1)] a'(2) show ?thesis by simp
  qed
qed

lemma find_first_replace:
  "find_first sub s = Some (a, b) \<Longrightarrow> sub \<noteq> [] \<Longrightarrow>
     replace_scan sub new s = a @ new @ replace_scan sub new b"
proof (induction s arbitrary: a)
  case Nil
  then show ?case by simp
next
  case (Cons c cs)
  show ?case
  proof (cases "prefix sub (c # cs)")
    case True
    have "a = []" "b = drop (length sub) (c # cs)" using True Cons.prems(1) by auto
    then show ?thesis using True Cons.prems(2) by simp
  next
    case False
    with Cons.prems obtain a' where a': "find_first sub cs = Some (a', b)" "a = c # a'"
      by auto
    from Cons.IH[OF a'(1) Cons.prems(2)] False a'(2) show ?thesis by simp
  qed
qed

lemma remove_every_fuel_replace:
  "length s \<le> n \<Longrightarrow> sub \<noteq> [] \<Longrightarrow> remove_every_fuel n sub s = replace_scan sub [] s"
proof (induction n arbitrary: s)
  case 0
  then show ?case by simp
next
  case (Suc n)
  show ?case
  proof (cases "find_first sub s")
    case None
    then show ?thesis by (simp add: find_first_None)
  next
    case (Some p)
    obtain a b where p: "p = (a, b)" by (cases p)
    have s: "s = a @ sub @ b"
      using Some p by (simp add: find_first_split)
    have r: "replace_scan sub [] s = a @ replace_scan sub [] b"
      using find_first_replace[OF Some[unfolded p] Suc.prems(2), where new = "[]"] by simp
    have "length b \<le> n" using Suc.prems s by (cases sub) auto
    from Suc.IH[OF this Suc.prems(2)] Some p r show ?thesis by simp
  qed
qed

lemma str_replace_remove_every: "sub \<noteq> [] \<Longrightarrow> str_replace sub [] s = remove_every sub s"
  by (simp add: str_replace_def remove_every_def remove_every_fuel_replace)

lemma remove_every_unfold:
  "sub \<noteq> [] \<Longrightarrow> remove_every sub s = (case find_first sub s of None \<Rightarrow> s | Some (a, b) \<Rightarrow> a @ remove_every sub b)"
proof (cases "find_first sub s")
  case None
  assume "sub \<noteq> []"
  then show ?thesis using None by (simp add: str_replace_remove_every[symmetric] str_replace_def find_first_None)
next
  case (Some p)
  assume ne: "sub \<noteq> []"
  obtain a b where p: "p = (a, b)" by (cases p)
  from find_first_replace[OF Some[unfolded p] ne, where new = "[]"]
  have "replace_scan sub [] s = a @ replace_scan sub [] b" by simp
  with Some p ne show ?thesis
    by (simp add: str_replace_remove_every[symmetric] str_replace_def)
qed

lemma subseq_replace_scan: "subseq (replace_scan sub [] s) s"
proof (induction sub "[]::string" s rule: replace_scan.induct)
  case (1 old) show ?case by simp
next
  case (2 old c cs)
  show ?case
  proof (cases "old \<noteq> [] \<and> prefix old (c # cs)")
    case True
    with 2 have "subseq (replace_scan old [] (drop (length old) (c # cs))) (drop (length old) (c # cs))" by simp
    moreover have "subseq (drop (length old) (c # cs)) (c # cs)"
      by (rule suffix_imp_subseq) (rule suffix_drop)
    ultimately have "subseq (replace_scan old [] (drop (length old) (c # cs))) (c # cs)"
      by (rule subseq_order.trans)
    then show ?thesis using True by simp
  next
    case False
    with 2 show ?thesis by auto
  qed
qed

lemma prefix_rstrip: "prefix (rstrip s) s"
proof -
  have "rev (takeWhile isspace (rev s) @ dropWhile isspace (rev s)) = s"
    by simp
  then have "s = rstrip s @ rev (takeWhile isspace (rev s))"
    by (simp add: rstrip_def del: takeWhile_dropWhile_id)
  then show ?thesis by (metis prefixI)
qed

lemma subseq_rstrip: "subseq (rstrip s) s"
  by (rule prefix_imp_subseq) (rule prefix_rstrip)

lemma rstrip_last: "rstrip s = [] \<or> \<not> isspace (last (rstrip s))"
proof (cases "dropWhile isspace (rev s)")
  case Nil then show ?thesis by (simp add: rstrip_def)
next
  case (Cons x xs)
  then have "\<not> isspace x" by (metis hd_dropWhile list.sel(1) list.distinct(1))
  with Cons show ?thesis by (simp add: rstrip_def)
qed

text \<open>
  C5, as amended: \<open>sanitize_filename\<close> removes every occurrence of \<open>www.\<close>, then every
  occurrence of \<open>https://\<close>, then every occurrence of \<open>http://\<close> (each found from the
  left, the search going on after the occurrence just removed), keeps only letters, digits,
  spaces, dots, underscores and hyphens, and trims trailing whitespace.  So the result has
  only such characters, does not end in whitespace, and is a subsequence of the input.
\<close>

theorem sanitize_filename_removes_every:
  "sanitize_filename s =
     rstrip (filter safe_char
       (remove_every ''http://'' (remove_every ''https://'' (remove_every ''www.'' s)))) \<and>
   (\<forall>sub t. sub \<noteq> [] \<longrightarrow>
      remove_every sub t =
        (case find_first sub t of None \<Rightarrow> t | Some (a, b) \<Rightarrow> a @ remove_every sub b)) \<and>
   (\<forall>sub t a b. find_first sub t = Some (a, b) \<longrightarrow> t = a @ sub @ b) \<and>
   (\<forall>c \<in> set (sanitize_filename s). safe_char c) \<and>
   (sanitize_filename s \<noteq> [] \<longrightarrow> \<not> isspace (last (sanitize_filename s))) \<and>
   subseq (sanitize_filename s) s"
proof (intro conjI allI impI)
  show eq: "sanitize_filename s =
     rstrip (filter safe_char
       (remove_every ''http://'' (remove_every ''https://'' (remove_every ''www.'' s))))"
    by (simp add: sanitize_filename_def str_replace_remove_every)
  show "remove_every sub t =
        (case find_first sub t of None \<Rightarrow> t | Some (a, b) \<Rightarrow> a @ remove_every sub b)"
    if "sub \<noteq> []" for sub t
    using that by (rule remove_every_unfold)
  show "t = a @ sub @ b" if "find_first sub t = Some (a, b)" for sub t a b
    using that by (rule find_first_split)
  have "set (rstrip t) \<subseteq> set t" for t
    using prefix_rstrip[of t] by (rule set_mono_prefix)
  then show "\<forall>c \<in> set (sanitize_filename s). safe_char c"
    unfolding eq by fastforce
  show "\<not> isspace (last (sanitize_filename s))" if "sanitize_filename s \<noteq> []"
    using that unfolding eq using rstrip_last by blast
  have "subseq (sanitize_filename s)
     (filter safe_char (str_replace ''http://'' [] (str_replace ''https://'' [] (str_replace ''www.'' [] s))))"
    by (simp add: sanitize_filename_def subseq_rstrip)
  also have "subseq \<dots> (str_replace ''http://'' [] (str_replace ''https://'' [] (str_replace ''www.'' [] s)))"
    by simp
  also (subseq_order.trans) have "subseq \<dots> (str_replace ''https://'' [] (str_replace ''www.'' [] s))"
    by (simp add: str_replace_def subseq_replace_scan)
  also (subseq_order.trans) have "subseq \<dots> (str_replace ''www.'' [] s)"
    by (simp add: str_replace_def subseq_replace_scan)
  also (subseq_order.trans) have "subseq \<dots> s"
    by (simp add: str_replace_def subseq_replace_scan)
  finally (subseq_order.trans) show "subseq (sanitize_filename s) s" .
qed

lemma sanitize_example:
  "sanitize_filename ''https://www.ex ample.com/ '' = ''ex ample.com''"
  by (simp add: sanitize_filename_def str_replace_def rstrip_def safe_char_def isalpha_def
      isdigit_def isspace_def)

theorem sanitize_filename_removes_every_witness:
  "sanitize_filename ''https://www.ex ample.com/ '' = ''ex ample.com'' \<and>
   ''www.'' \<noteq> [] \<and>
   find_first ''www.'' ''https://www.ex ample.com/ '' = Some (''https://'', ''ex ample.com/ '') \<and>
   remove_every ''www.'' ''https://www.ex ample.com/ '' = ''https://'' @ remove_every ''www.'' ''ex ample.com/ '' \<and>
   CHR ''e'' \<in> set (sanitize_filename ''https://www.ex ample.com/ '') \<and>
   safe_char (CHR ''e'') \<and>
   sanitize_filename ''https://www.ex ample.com/ '' \<noteq> [] \<and>
   \<not> isspace (last (sanitize_filename ''https://www.ex ample.com/ ''))"
proof -
  note t = sanitize_filename_removes_every [of "''https://www.ex ample.com/ ''"]
  have ff: "find_first ''www.'' ''https://www.ex ample.com/ '' = Some (''https://'', ''ex ample.com/ '')"
    by simp
  have ne: "''www.'' \<noteq> []" by simp
  have "remove_every ''www.'' ''https://www.ex ample.com/ '' =
      (case find_first ''www.'' ''https://www.ex ample.com/ '' of None \<Rightarrow> ''https://www.ex ample.com/ ''
       | Some (a, b) \<Rightarrow> a @ remove_every ''www.'' b)"
    using t [THEN conjunct2, THEN conjunct1, rule_format, OF ne] .
  then have re: "remove_every ''www.'' ''https://www.ex ample.com/ '' =
      ''https://'' @ remove_every ''www.'' ''ex ample.com/ ''"
    unfolding ff by simp
  have m: "CHR ''e'' \<in> set (sanitize_filename ''https://www.ex ample.com/ '')"
    unfolding sanitize_example by simp
  have sc: "safe_char (CHR ''e'')"
    using t [THEN conjunct2, THEN conjunct2, THEN conjunct2, THEN conjunct1] m by blast
  have n: "sanitize_filename ''https://www.ex ample.com/ '' \<noteq> []"
    unfolding sanitize_example by simp
  have l: "\<not> isspace (last (sanitize_filename ''https://www.ex ample.com/ ''))"
    using t [THEN conjunct2, THEN conjunct2, THEN conjunct2, THEN conjunct2, THEN conjunct1] n by blast
  show ?thesis using sanitize_example ne ff re m sc n l by blast
qed

text \<open>
  C5 as stated fails: a second \<open>www.\<close> is removed as well, where removing the first
  occurrence only would leave it to the character filter.
\<close>

theorem sanitize_removes_second_occurrence:
  "sanitize_filename ''www.www.a'' = ''a'' \<and> sanitize_first_only ''www.www.a'' = ''www.a'' \<and>
   sanitize_filename ''www.www.a'' \<noteq> sanitize_first_only ''www.www.a''"
proof -
  have a: "sanitize_filename ''www.www.a'' = ''a''"
    by (simp add: sanitize_filename_def str_replace_def rstrip_def safe_char_def isalpha_def
        isdigit_def isspace_def)
  have b: "sanitize_first_only ''www.www.a'' = ''www.a''"
    by (simp add: sanitize_first_only_def remove_first_def rstrip_def safe_char_def isalpha_def
        isdigit_def isspace_def)
  show ?thesis unfolding a b by simp
qed

section \<open>Properties of generate_stylus_json\<close>

lemma field_name_entry:
  "field ''name'' (create_stylus_style_entry now uuid name rules domains style_id g) = Some (JStr name)"
  by (simp add: field_def create_stylus_style_entry_def Let_def)

lemma field_id_entry:
  "field ''id'' (create_stylus_style_entry now uuid name rules domains style_id g) = Some (JInt style_id)"
  by (simp add: field_def create_stylus_style_entry_def Let_def)

lemma field_sections_global:
  "field ''sections'' (create_stylus_style_entry now uuid name rules None style_id True) =
     Some (JList [JObj [(''code'', JStr (''/* Rules converted from uBlock Origin */\<newline>\<newline>'' @ all_rules rules))]])"
  by (simp add: field_def create_stylus_style_entry_def Let_def)

lemma generate_stylus_json_eq:
  "generate_stylus_json clock uuids dm gs =
     settings_obj # map (domain_entry clock uuids (clock 0 mod 1000000)) (enumerate 0 dm) @
     (if gs \<noteq> [] then
        [create_stylus_style_entry (clock (Suc (length dm))) (uuids (length dm))
           ''Global Rules - uBlock Converted'' (dedupe_rules gs) None
           (clock 0 mod 1000000 + int (length dm)) True]
      else [])"
  by (simp add: generate_stylus_json_def Let_def)

text \<open>
  C8: the export starts with the fixed settings object and holds, after it, one entry for
  each item of \<open>domain_map\<close>, in the order of the items (the entry at index \<open>i\<close> has the
  name of the \<open>i\<close>-th domain and the id \<open>base + i\<close>), and one more entry when there are
  global rules.  That last entry has the fixed name, the id \<open>base\<close> plus the number of
  domains, and one section that has a \<open>code\<close> field only, so no \<open>domains\<close> field.
\<close>

theorem stylus_json_entries:
  "hd (generate_stylus_json clock uuids dm gs) = settings_obj \<and>
   length (generate_stylus_json clock uuids dm gs) = 1 + length dm + (if gs \<noteq> [] then 1 else 0) \<and>
   (\<forall>i < length dm.
      field ''name'' (generate_stylus_json clock uuids dm gs ! Suc i) = Some (JStr (fst (dm ! i))) \<and>
      field ''id'' (generate_stylus_json clock uuids dm gs ! Suc i) = Some (JInt (clock 0 mod 1000000 + int i))) \<and>
   (gs \<noteq> [] \<longrightarrow>
      field ''name'' (last (generate_stylus_json clock uuids dm gs)) = Some (JStr ''Global Rules - uBlock Converted'') \<and>
      field ''id'' (last (generate_stylus_json clock uuids dm gs)) = Some (JInt (clock 0 mod 1000000 + int (length dm))) \<and>
      (\<exists>code. field ''sections'' (last (generate_stylus_json clock uuids dm gs)) = Some (JList [JObj [(''code'', JStr code)]]) \<and>
         field ''domains'' (JObj [(''code'', JStr code)]) = None))"
proof (intro conjI allI impI)
  let ?out = "generate_stylus_json clock uuids dm gs"
  let ?b = "clock 0 mod 1000000"
  note eq = generate_stylus_json_eq[of clock uuids dm gs]
  show "hd ?out = settings_obj" by (simp add: eq)
  show "length ?out = 1 + length dm + (if gs \<noteq> [] then 1 else 0)" by (simp add: eq)
  have nth: "?out ! Suc i = domain_entry clock uuids ?b (i, dm ! i)" if "i < length dm" for i
    using that by (simp add: eq nth_append nth_enumerate_eq)
  show "field ''name'' (?out ! Suc i) = Some (JStr (fst (dm ! i)))" if "i < length dm" for i
    unfolding nth[OF that] by (cases "dm ! i") (simp add: domain_entry_def Let_def field_name_entry)
  show "field ''id'' (?out ! Suc i) = Some (JInt (?b + int i))" if "i < length dm" for i
    unfolding nth[OF that] by (cases "dm ! i") (simp add: domain_entry_def Let_def field_id_entry)
  assume g: "gs \<noteq> []"
  have l: "last ?out = create_stylus_style_entry (clock (Suc (length dm))) (uuids (length dm))
           ''Global Rules - uBlock Converted'' (dedupe_rules gs) None (?b + int (length dm)) True"
    using g by (simp add: eq)
  show "field ''name'' (last ?out) = Some (JStr ''Global Rules - uBlock Converted'')"
    unfolding l by (rule field_name_entry)
  show "field ''id'' (last ?out) = Some (JInt (?b + int (length dm)))"
    unfolding l by (rule field_id_entry)
  show "\<exists>code. field ''sections'' (last ?out) = Some (JList [JObj [(''code'', JStr code)]]) \<and>
         field ''domains'' (JObj [(''code'', JStr code)]) = None"
    unfolding l field_sections_global by (simp add: field_def)
qed


theorem stylus_json_entries_witness:
  "(0::nat) < length [(''a.com'', [(''.x'', hide_decl)])] \<and>
   field ''name'' (generate_stylus_json (\<lambda>n. 1700000000007) (\<lambda>n. ''u'')
       [(''a.com'', [(''.x'', hide_decl)])] [(''.g'', hide_decl)] ! Suc 0) = Some (JStr ''a.com'') \<and>
   [(''.g'', hide_decl)] \<noteq> [] \<and>
   field ''name'' (last (generate_stylus_json (\<lambda>n. 1700000000007) (\<lambda>n. ''u'')
       [(''a.com'', [(''.x'', hide_decl)])] [(''.g'', hide_decl)])) =
     Some (JStr ''Global Rules - uBlock Converted'') \<and>
   field ''id'' (last (generate_stylus_json (\<lambda>n. 1700000000007) (\<lambda>n. ''u'')
       [(''a.com'', [(''.x'', hide_decl)])] [(''.g'', hide_decl)])) = Some (JInt 8)"
proof -
  note t = stylus_json_entries [of "\<lambda>n. 1700000000007" "\<lambda>n. ''u''"
      "[(''a.com'', [(''.x'', hide_decl)])]" "[(''.g'', hide_decl)]"]
  have i: "(0::nat) < length [(''a.com'', [(''.x'', hide_decl)])]" by simp
  have g: "[(''.g'', hide_decl)] \<noteq> []" by simp
  have a: "field ''name'' (generate_stylus_json (\<lambda>n. 1700000000007) (\<lambda>n. ''u'')
       [(''a.com'', [(''.x'', hide_decl)])] [(''.g'', hide_decl)] ! Suc 0) = Some (JStr ''a.com'')"
    using t [THEN conjunct2, THEN conjunct2, THEN conjunct1, rule_format, OF i, THEN conjunct1]
    by simp
  have b: "field ''name'' (last (generate_stylus_json (\<lambda>n. 1700000000007) (\<lambda>n. ''u'')
       [(''a.com'', [(''.x'', hide_decl)])] [(''.g'', hide_decl)])) =
     Some (JStr ''Global Rules - uBlock Converted'')"
    using t [THEN conjunct2, THEN conjunct2, THEN conjunct2, rule_format, OF g, THEN conjunct1] .
  have c: "field ''id'' (last (generate_stylus_json (\<lambda>n. 1700000000007) (\<lambda>n. ''u'')
       [(''a.com'', [(''.x'', hide_decl)])] [(''.g'', hide_decl)])) = Some (JInt 8)"
    using t [THEN conjunct2, THEN conjunct2, THEN conjunct2, rule_format, OF g,
        THEN conjunct2, THEN conjunct1]
    by simp
  show ?thesis using i g a b c by blast
qed

section \<open>Properties of the string operations\<close>

lemma rstrip_Nil_iff: "rstrip s = [] \<longleftrightarrow> (\<forall>c \<in> set s. isspace c)"
  by (auto simp: rstrip_def dropWhile_eq_Nil_conv)

lemma rstrip_hd: "rstrip s \<noteq> [] \<Longrightarrow> hd (rstrip s) = hd s"
  using prefix_rstrip[of s] by (cases "rstrip s") (auto simp: prefix_def)

lemma lstrip_hd: "lstrip s \<noteq> [] \<Longrightarrow> \<not> isspace (hd (lstrip s))"
  unfolding lstrip_def by (metis hd_dropWhile)

lemma strip_ends:
  "strip s \<noteq> [] \<Longrightarrow> \<not> isspace (hd (strip s)) \<and> \<not> isspace (last (strip s))"
proof -
  assume ne: "strip s \<noteq> []"
  then have l: "lstrip s \<noteq> []" by (auto simp: strip_def rstrip_def)
  have "hd (strip s) = hd (lstrip s)" using ne unfolding strip_def by (rule rstrip_hd)
  moreover have "\<not> isspace (last (strip s))"
    using ne rstrip_last[of "lstrip s"] by (simp add: strip_def)
  ultimately show ?thesis using lstrip_hd[OF l] by simp
qed

lemma strip_keeps_start:
  "s \<noteq> [] \<Longrightarrow> \<not> isspace (hd s) \<Longrightarrow> strip s \<noteq> []"
proof -
  assume a: "s \<noteq> []" "\<not> isspace (hd s)"
  then have "lstrip s = s" by (cases s) (auto simp: lstrip_def)
  moreover have "rstrip s \<noteq> []" using a by (cases s) (auto simp: rstrip_Nil_iff)
  ultimately show ?thesis by (simp add: strip_def)
qed

lemma split_scan_zero: "split_scan sep (Some 0) cur s = [cur @ s]"
  by (induction s arbitrary: cur) auto

lemma split_scan_nonempty: "split_scan sep k cur s \<noteq> []"
  by (induction sep k cur s rule: split_scan.induct) auto

lemma split_scan_once:
  "sep \<noteq> [] \<Longrightarrow> split_scan sep (Some (Suc 0)) cur s =
     (case find_first sep s of None \<Rightarrow> [cur @ s] | Some (a, b) \<Rightarrow> [cur @ a, b])"
proof (induction s arbitrary: cur)
  case Nil
  then show ?case by simp
next
  case (Cons c cs)
  show ?case
  proof (cases "prefix sep (c # cs)")
    case True
    with Cons.prems show ?thesis by (simp add: split_scan_zero)
  next
    case False
    with Cons show ?thesis by (auto split: option.splits)
  qed
qed

lemma split_scan_hd:
  "sep \<noteq> [] \<Longrightarrow> hd (split_scan sep None cur s) =
     (case find_first sep s of None \<Rightarrow> cur @ s | Some (a, b) \<Rightarrow> cur @ a)"
proof (induction s arbitrary: cur)
  case Nil
  then show ?case by simp
next
  case (Cons c cs)
  show ?case
  proof (cases "prefix sep (c # cs)")
    case True
    with Cons.prems show ?thesis by simp
  next
    case False
    with Cons show ?thesis by (auto split: option.splits)
  qed
qed

lemma str_in_find_first: "str_in sub s \<longleftrightarrow> find_first sub s \<noteq> None"
  by (induction s) auto

lemma str_split_ok: "sep \<noteq> [] \<Longrightarrow> str_split sep k s = Inr (split_scan sep k [] s)"
  by (simp add: str_split_def)

lemma py_index_0: "xs \<noteq> [] \<Longrightarrow> py_index xs 0 = Inr (hd xs)"
  by (cases xs) (auto simp: py_index_def)

section \<open>Properties of the style pattern\<close>

lemma greedy_char:
  "CHR ''\<newline>'' \<notin> set r \<Longrightarrow>
   dot_plus_greedy acc r = (if 2 \<le> length r \<and> last r = CHR '')'' then Some (acc @ butlast r) else None)"
proof (induction r arbitrary: acc)
  case Nil
  then show ?case by simp
next
  case (Cons c cs)
  then have c: "c \<noteq> CHR ''\<newline>''" and cs: "CHR ''\<newline>'' \<notin> set cs" by auto
  note IH = Cons.IH[OF cs, of "acc @ [c]"]
  show ?case
  proof (cases "2 \<le> length cs \<and> last cs = CHR '')''")
    case True
    then have "cs \<noteq> []" by auto
    with True IH c show ?thesis by simp
  next
    case False
    with IH have n: "dot_plus_greedy (acc @ [c]) cs = None" by simp
    have nl: "cs \<noteq> '')\<newline>''" using cs by auto
    show ?thesis
    proof (cases "cs = '')''")
      case True
      with n c show ?thesis by simp
    next
      case ne: False
      have "\<not> (2 \<le> length (c # cs) \<and> last (c # cs) = CHR '')'')"
      proof
        assume a: "2 \<le> length (c # cs) \<and> last (c # cs) = CHR '')''"
        then have "cs \<noteq> []" by auto
        with a have l: "last cs = CHR '')''" by simp
        with False have "length cs < 2" by simp
        with \<open>cs \<noteq> []\<close> have "length cs = 1" by (cases cs) auto
        with l have "cs = '')''" by (cases cs) auto
        with ne show False by simp
      qed
      with n c ne nl show ?thesis by simp
    qed
  qed
qed

lemma style_shape_Cons:
  "style_shape (c # cs) u d \<longleftrightarrow>
     (u = [c] \<and> d \<noteq> [] \<and> cs = '':style('' @ d @ '')'') \<or> (\<exists>u'. u = c # u' \<and> style_shape cs u' d)"
  by (cases u) (auto simp: style_shape_def Cons_eq_append_conv)

lemma style_here:
  assumes "CHR ''\<newline>'' \<notin> set cs"
  shows "(if prefix '':style('' cs then dot_plus_greedy [] (drop (length '':style('') cs) else None) =
         (if \<exists>d. d \<noteq> [] \<and> cs = '':style('' @ d @ '')'' then Some (butlast (drop 7 cs)) else None)"
proof (cases "prefix '':style('' cs")
  case False
  then have "\<not> (\<exists>d. cs = '':style('' @ d @ '')'')" by (auto simp: prefix_def)
  with False show ?thesis by auto
next
  case True
  then obtain r where r: "cs = '':style('' @ r" by (auto simp: prefix_def)
  have nl: "CHR ''\<newline>'' \<notin> set r" using assms r by auto
  have iff: "(\<exists>d. d \<noteq> [] \<and> cs = '':style('' @ d @ '')'') \<longleftrightarrow> (2 \<le> length r \<and> last r = CHR '')'')"
  proof
    assume "\<exists>d. d \<noteq> [] \<and> cs = '':style('' @ d @ '')''"
    then obtain d where "d \<noteq> []" "r = d @ '')''" using r by auto
    then show "2 \<le> length r \<and> last r = CHR '')''" by (cases d) auto
  next
    assume a: "2 \<le> length r \<and> last r = CHR '')''"
    then have "r \<noteq> []" by auto
    then have "r = butlast r @ '')''" using a by (metis append_butlast_last_id)
    moreover have "butlast r \<noteq> []" using a by (cases r rule: rev_cases) auto
    ultimately show "\<exists>d. d \<noteq> [] \<and> cs = '':style('' @ d @ '')''" using r by blast
  qed
  have "dot_plus_greedy [] (drop (length '':style('') cs) = dot_plus_greedy [] r"
    by (simp add: r)
  also have "\<dots> = (if 2 \<le> length r \<and> last r = CHR '')'' then Some (butlast r) else None)"
    using greedy_char[OF nl, of "[]"] by simp
  finally show ?thesis using True iff by (simp add: r)
qed

lemma lazy_step:
  assumes "c \<noteq> CHR ''\<newline>''" and "CHR ''\<newline>'' \<notin> set cs"
  shows "dot_plus_lazy acc (c # cs) =
     (if \<exists>d. d \<noteq> [] \<and> cs = '':style('' @ d @ '')'' then Some (acc @ [c], butlast (drop 7 cs))
      else dot_plus_lazy (acc @ [c]) cs)"
proof -
  have "dot_plus_lazy acc (c # cs) =
     (case (if prefix '':style('' cs then dot_plus_greedy [] (drop (length '':style('') cs) else None) of
              Some d \<Rightarrow> Some (acc @ [c], d)
            | None \<Rightarrow> dot_plus_lazy (acc @ [c]) cs)"
    using assms(1) by (simp only: dot_plus_lazy.simps if_False)
  also have "\<dots> = (if \<exists>d. d \<noteq> [] \<and> cs = '':style('' @ d @ '')'' then Some (acc @ [c], butlast (drop 7 cs))
      else dot_plus_lazy (acc @ [c]) cs)"
    unfolding style_here[OF assms(2)] by (simp only: option.case if_distrib[of "case_option _ _"] cong: if_cong)
  finally show ?thesis .
qed

lemma lazy_hit:
  assumes "c \<noteq> CHR ''\<newline>''" and "CHR ''\<newline>'' \<notin> set cs"
    and "\<exists>d. d \<noteq> [] \<and> cs = '':style('' @ d @ '')''"
  shows "dot_plus_lazy acc (c # cs) = Some (acc @ [c], butlast (drop 7 cs))"
  unfolding lazy_step[OF assms(1,2)] using assms(3) by (rule if_P)

lemma lazy_miss:
  assumes "c \<noteq> CHR ''\<newline>''" and "CHR ''\<newline>'' \<notin> set cs"
    and "\<not> (\<exists>d. d \<noteq> [] \<and> cs = '':style('' @ d @ '')'')"
  shows "dot_plus_lazy acc (c # cs) = dot_plus_lazy (acc @ [c]) cs"
  unfolding lazy_step[OF assms(1,2)] using assms(3) by (rule if_not_P)

lemma lazy_Some:
  "CHR ''\<newline>'' \<notin> set s \<Longrightarrow> dot_plus_lazy acc s = Some (x, d) \<Longrightarrow>
     \<exists>u. x = acc @ u \<and> style_shape s u d \<and> (\<forall>u' d'. style_shape s u' d' \<longrightarrow> length u \<le> length u')"
proof (induction s arbitrary: acc)
  case Nil
  then show ?case by simp
next
  case (Cons c cs)
  then have c: "c \<noteq> CHR ''\<newline>''" and cs: "CHR ''\<newline>'' \<notin> set cs" by auto
  show ?case
  proof (cases "\<exists>d. d \<noteq> [] \<and> cs = '':style('' @ d @ '')''")
    case True
    then obtain d0 where d0: "d0 \<noteq> []" "cs = '':style('' @ d0 @ '')''" by blast
    from Cons.prems(2) have "x = acc @ [c]" "d = butlast (drop 7 cs)"
      unfolding lazy_hit[OF c cs True] by simp_all
    moreover have "butlast (drop 7 cs) = d0" using d0 by (simp add: butlast_append)
    moreover have "style_shape (c # cs) [c] d0" using d0 by (simp add: style_shape_def)
    moreover have "length [c] \<le> length u'" if "style_shape (c # cs) u' d'" for u' d'
      using that by (cases u') (auto simp: style_shape_def)
    ultimately show ?thesis by blast
  next
    case False
    from Cons.prems(2) have rec: "dot_plus_lazy (acc @ [c]) cs = Some (x, d)"
      unfolding lazy_miss[OF c cs False] .
    from Cons.IH[OF cs rec] obtain u where u: "x = (acc @ [c]) @ u" "style_shape cs u d"
      "\<forall>u' d'. style_shape cs u' d' \<longrightarrow> length u \<le> length u'" by blast
    have "style_shape (c # cs) (c # u) d" using u(2) by (simp add: style_shape_Cons)
    moreover have "length (c # u) \<le> length u'" if "style_shape (c # cs) u' d'" for u' d'
    proof -
      from that False obtain u'' where "u' = c # u''" "style_shape cs u'' d'"
        by (auto simp: style_shape_Cons)
      with u(3) show ?thesis by auto
    qed
    ultimately show ?thesis using u(1) by (intro exI[of _ "c # u"]) auto
  qed
qed

lemma lazy_None:
  "CHR ''\<newline>'' \<notin> set s \<Longrightarrow> dot_plus_lazy acc s = None \<Longrightarrow> \<not> style_shape s u d"
proof (induction s arbitrary: acc u)
  case Nil
  then show ?case by (simp add: style_shape_def)
next
  case (Cons c cs)
  then have c: "c \<noteq> CHR ''\<newline>''" and cs: "CHR ''\<newline>'' \<notin> set cs" by auto
  have no: "\<not> (\<exists>d. d \<noteq> [] \<and> cs = '':style('' @ d @ '')'')"
  proof
    assume "\<exists>d. d \<noteq> [] \<and> cs = '':style('' @ d @ '')''"
    from Cons.prems(2)[unfolded lazy_hit[OF c cs this]] show False by simp
  qed
  from Cons.prems(2) have rec: "dot_plus_lazy (acc @ [c]) cs = None"
    unfolding lazy_miss[OF c cs no] .
  show ?case
  proof
    assume "style_shape (c # cs) u d"
    with no obtain u' where "style_shape cs u' d" by (auto simp: style_shape_Cons)
    with Cons.IH[OF cs rec] show False by blast
  qed
qed

section \<open>Properties of parse_filters\<close>

lemma lazy_prefix:
  "dot_plus_lazy acc s = Some (x, d) \<Longrightarrow> \<exists>u. u \<noteq> [] \<and> x = acc @ u \<and> prefix u s"
proof (induction s arbitrary: acc)
  case Nil
  then show ?case by simp
next
  case (Cons c cs)
  show ?case
  proof (cases "dot_plus_lazy acc (c # cs) = dot_plus_lazy (acc @ [c]) cs")
    case True
    with Cons.prems have "dot_plus_lazy (acc @ [c]) cs = Some (x, d)" by simp
    from Cons.IH[OF this] obtain u where "u \<noteq> []" "x = (acc @ [c]) @ u" "prefix u cs" by blast
    then show ?thesis by (intro exI[of _ "c # u"]) auto
  next
    case False
    with Cons.prems have "x = acc @ [c]"
      by (auto split: if_splits option.splits)
    then show ?thesis by (intro exI[of _ "[c]"]) auto
  qed
qed

lemma re_match_clean:
  assumes "re_match_style sp = Some (g1, g2)" and "sp \<noteq> []" and "\<not> isspace (hd sp)"
  shows "clean_selector (strip g1, strip g2)"
proof -
  from lazy_prefix[OF assms(1)[unfolded re_match_style_def]]
  obtain u where u: "u \<noteq> []" "g1 = u" "prefix u sp" by auto
  then have "hd g1 = hd sp" by (cases u) (auto simp: prefix_def)
  with u assms(3) have "strip g1 \<noteq> []" by (intro strip_keeps_start) auto
  then show ?thesis using strip_ends[of g1] by (simp add: clean_selector_def)
qed

lemma store_rule_effect:
  "clean_selector r \<Longrightarrow>
   \<exists>eff. effect_ok eff \<and> eff \<noteq> Ignored \<and> (\<forall>n line st. store_rule r dpart st = Inr (apply_effect eff n line st))"
proof (cases "dpart = []")
  case True
  assume "clean_selector r"
  then show ?thesis using True
    by (intro exI[of _ "Global_Rule r"]) (simp add: store_rule_def)
next
  case False
  assume "clean_selector r"
  then show ?thesis using False
    by (intro exI[of _ "Domain_Rule r (split_scan '','' None [] dpart)"])
      (simp add: store_rule_def str_split_ok split_scan_nonempty)
qed

lemma try_body_split:
  assumes "find_first ''##'' line = Some (dp, sp)"
  shows "try_body n line st =
       (if strip sp = [] then Inr (append_invalid (n, line, ''Empty selector'') st)
        else if str_in '':style('' (strip sp) then
             (case re_match_style (strip sp) of
                Some (g1, g2) \<Rightarrow> store_rule (strip g1, strip g2) (strip dp) st
              | None \<Rightarrow> Inr (append_invalid (n, line, ''Invalid :style() syntax'') st))
           else store_rule (strip sp, hide_decl) (strip dp) st)"
proof -
  have "str_split ''##'' (Some 1) line = Inr [dp, sp]"
    using assms split_scan_once[of "''##''" "[]" line] by (simp add: str_split_ok)
  then show ?thesis
    by (simp add: try_body_def py_index_def Let_def)
qed

lemma try_body_effect:
  assumes "find_first ''##'' line = Some (dp, sp)"
  shows "\<exists>eff. effect_ok eff \<and> eff \<noteq> Ignored \<and>
            (\<forall>n st. try_body n line st = Inr (apply_effect eff n line st))"
proof (cases "strip sp = []")
  case True
  then show ?thesis
    by (intro exI[of _ "Invalid ''Empty selector''"]) (simp add: try_body_split[OF assms])
next
  case ne: False
  note ends = strip_ends[OF ne]
  show ?thesis
  proof (cases "str_in '':style('' (strip sp)")
    case False
    have "clean_selector (strip sp, hide_decl)" using ne ends by (simp add: clean_selector_def)
    from store_rule_effect[OF this, of "strip dp"] obtain eff where
      "effect_ok eff" "eff \<noteq> Ignored" "\<forall>n line st. store_rule (strip sp, hide_decl) (strip dp) st = Inr (apply_effect eff n line st)"
      by blast
    then show ?thesis using ne False
      by (intro exI[of _ eff]) (simp add: try_body_split[OF assms])
  next
    case True
    show ?thesis
    proof (cases "re_match_style (strip sp)")
      case None
      then show ?thesis using ne True
        by (intro exI[of _ "Invalid ''Invalid :style() syntax''"]) (simp add: try_body_split[OF assms])
    next
      case (Some g)
      obtain g1 g2 where g: "g = (g1, g2)" by (cases g)
      have "clean_selector (strip g1, strip g2)"
        using re_match_clean[OF Some[unfolded g] ne] ends by simp
      from store_rule_effect[OF this, of "strip dp"] obtain eff where
        "effect_ok eff" "eff \<noteq> Ignored" "\<forall>n line st. store_rule (strip g1, strip g2) (strip dp) st = Inr (apply_effect eff n line st)"
        by blast
      then show ?thesis using ne True Some g
        by (intro exI[of _ eff]) (simp add: try_body_split[OF assms])
    qed
  qed
qed

lemma process_line_effect:
  "\<exists>eff. effect_ok eff \<and> (eff = Ignored \<longleftrightarrow> \<not> relevant_line raw) \<and>
         (\<forall>n st. process_line n raw st = Inr (apply_effect eff n (strip raw) st))"
proof -
  define line where "line = strip raw"
  show ?thesis
  proof (cases "line = [] \<or> startswith line ''!''")
    case True
    then show ?thesis
      by (intro exI[of _ Ignored]) (auto simp: process_line_def relevant_line_def line_def)
  next
    case rel: False
    then have r: "relevant_line raw" by (simp add: relevant_line_def line_def)
    show ?thesis
    proof (cases "startswith line ''||'' \<or> startswith line ''@@'' \<or> startswith line ''/''")
      case True
      then show ?thesis using rel r
        by (intro exI[of _ "Skipped ''Network filter''"]) (simp add: process_line_def line_def Let_def)
    next
      case nonet: False
      show ?thesis
      proof (cases "str_in ''##'' line")
        case False
        show ?thesis
        proof (cases "str_in ''$'' line \<or> startswith line ''|''")
          case True
          then show ?thesis using rel r nonet False
            by (intro exI[of _ "Skipped ''Network filter''"]) (simp add: process_line_def line_def Let_def)
        next
          case f2: False
          then show ?thesis using rel r nonet False
            by (intro exI[of _ "Invalid ''Missing ## separator''"]) (simp add: process_line_def line_def Let_def)
        qed
      next
        case True
        then obtain dp sp where ff: "find_first ''##'' line = Some (dp, sp)"
          by (auto simp: str_in_find_first)
        have pre: "py_index (split_scan ''##'' None [] line) 0 = Inr dp"
          using split_scan_hd[of "''##''" "[]" line] ff
          by (simp add: py_index_0 split_scan_nonempty)
        show ?thesis
        proof (cases "str_in ''$'' dp")
          case d: True
          show ?thesis using rel r nonet True d pre
            by (intro exI[of _ "Skipped ''Network filter with options''"])
              (simp add: process_line_def line_def[symmetric] Let_def str_split_ok)
        next
          case d: False
          from try_body_effect[OF ff] obtain eff where eff: "effect_ok eff" "eff \<noteq> Ignored"
            "\<forall>n st. try_body n line st = Inr (apply_effect eff n line st)" by blast
          show ?thesis using rel r nonet True d pre eff
            by (intro exI[of _ eff])
              (simp add: process_line_def line_def[symmetric] Let_def str_split_ok except_handler_def)
        qed
      qed
    qed
  qed
qed

lemma entry_count_dd_append: "entry_count (dd_append k v m) = Suc (entry_count m)"
  by (induction m) (auto simp: entry_count_def)

lemma entry_count_fold:
  "entry_count (fold (\<lambda>d m. dd_append (f d) v m) ds m) = entry_count m + length ds"
  by (induction ds arbitrary: m) (auto simp: entry_count_dd_append)

lemma fold_dd_append_changes:
  "ds \<noteq> [] \<Longrightarrow> fold (\<lambda>d m. dd_append (f d) v m) ds m \<noteq> m"
proof
  assume "ds \<noteq> []" and "fold (\<lambda>d m. dd_append (f d) v m) ds m = m"
  then have "entry_count m + length ds = entry_count m"
    using entry_count_fold[of f v ds m] by simp
  with \<open>ds \<noteq> []\<close> show False by simp
qed

lemma rules_dd_append:
  "(\<Union>e \<in> set (dd_append k v m). set (snd e)) = insert v (\<Union>e \<in> set m. set (snd e))"
proof (induction m)
  case Nil
  show ?case by simp
next
  case (Cons e m)
  obtain k' vs where e: "e = (k', vs)" by (cases e)
  show ?case
  proof (cases "k' = k")
    case True
    then show ?thesis by (auto simp: e)
  next
    case False
    then have "(\<Union>x \<in> set (dd_append k v (e # m)). set (snd x)) =
        set vs \<union> (\<Union>x \<in> set (dd_append k v m). set (snd x))"
      by (simp add: e)
    also have "\<dots> = set vs \<union> insert v (\<Union>x \<in> set m. set (snd x))"
      by (simp only: Cons.IH)
    finally show ?thesis by (auto simp: e)
  qed
qed

lemma rules_fold_dd_append:
  "(\<Union>e \<in> set (fold (\<lambda>d m. dd_append (f d) v m) ds m). set (snd e)) \<subseteq> insert v (\<Union>e \<in> set m. set (snd e))"
proof (induction ds arbitrary: m)
  case Nil
  show ?case by auto
next
  case (Cons d ds)
  show ?case using Cons[of "dd_append (f d) v m"] unfolding rules_dd_append by auto
qed

text \<open>What an effect does to the four parts of the state.\<close>

lemma apply_effect_obs:
  assumes "effect_ok eff"
  shows "(is_rule eff \<longleftrightarrow> domain_map (apply_effect eff n line st) \<noteq> domain_map st \<or>
                          global_selectors (apply_effect eff n line st) \<noteq> global_selectors st)"
    and "invalid_lines (apply_effect eff n line st) =
           invalid_lines st @ (case eff of Invalid reason \<Rightarrow> [(n, line, reason)] | _ \<Rightarrow> [])"
    and "skipped_lines (apply_effect eff n line st) =
           skipped_lines st @ (case eff of Skipped reason \<Rightarrow> [(n, line, reason)] | _ \<Rightarrow> [])"
  using assms
  by (cases eff; simp add: append_invalid_def append_skipped_def fold_dd_append_changes)+

lemma apply_effect_clean:
  assumes "effect_ok eff" and "\<forall>r \<in> rules_of st. clean_selector r"
  shows "\<forall>r \<in> rules_of (apply_effect eff n line st). clean_selector r"
proof (cases eff)
  case (Domain_Rule r ds)
  have "rules_of (apply_effect eff n line st) \<subseteq> insert r (rules_of st)"
    using rules_fold_dd_append[of strip r ds "domain_map st"]
    by (auto simp: Domain_Rule rules_of_def)
  with assms Domain_Rule show ?thesis by auto
qed (use assms in \<open>auto simp: rules_of_def append_invalid_def append_skipped_def\<close>)

lemma adds_by_effect:
  assumes "effect_ok eff" and "\<forall>n st. process_line n raw st = Inr (apply_effect eff n (strip raw) st)"
  shows "adds_rule raw = is_rule eff" and "adds_invalid raw = is_invalid eff"
    and "adds_skipped raw = is_skipped eff"
proof -
  have p: "process_line 0 raw init_state = Inr (apply_effect eff 0 (strip raw) init_state)"
    using assms(2) by simp
  note obs = apply_effect_obs[OF assms(1), of 0 "strip raw" init_state]
  show "adds_rule raw = is_rule eff"
    unfolding adds_rule_def p using obs(1) by (simp add: init_state_def)
  show "adds_invalid raw = is_invalid eff"
    unfolding adds_invalid_def p using obs(2) by (cases eff) (simp_all add: init_state_def)
  show "adds_skipped raw = is_skipped eff"
    unfolding adds_skipped_def p using obs(3) by (cases eff) (simp_all add: init_state_def)
qed

lemma exactly_one_effect:
  "(eff \<noteq> Ignored \<longrightarrow>
      (is_rule eff \<and> \<not> is_invalid eff \<and> \<not> is_skipped eff) \<or>
      (\<not> is_rule eff \<and> is_invalid eff \<and> \<not> is_skipped eff) \<or>
      (\<not> is_rule eff \<and> \<not> is_invalid eff \<and> is_skipped eff)) \<and>
   (eff = Ignored \<longrightarrow> \<not> is_rule eff \<and> \<not> is_invalid eff \<and> \<not> is_skipped eff)"
  by (cases eff) auto

lemma line_classes:
  "(relevant_line raw \<longrightarrow>
      (adds_rule raw \<and> \<not> adds_invalid raw \<and> \<not> adds_skipped raw) \<or>
      (\<not> adds_rule raw \<and> adds_invalid raw \<and> \<not> adds_skipped raw) \<or>
      (\<not> adds_rule raw \<and> \<not> adds_invalid raw \<and> adds_skipped raw)) \<and>
   (\<not> relevant_line raw \<longrightarrow> \<not> adds_rule raw \<and> \<not> adds_invalid raw \<and> \<not> adds_skipped raw)"
proof -
  from process_line_effect[of raw] obtain eff where eff: "effect_ok eff"
    "eff = Ignored \<longleftrightarrow> \<not> relevant_line raw"
    "\<forall>n st. process_line n raw st = Inr (apply_effect eff n (strip raw) st)" by blast
  note a = adds_by_effect[OF eff(1,3)]
  show ?thesis using exactly_one_effect[of eff] eff(2) unfolding a by blast
qed

lemma process_line_step:
  "\<exists>st'. process_line n raw st = Inr st' \<and>
     (adds_rule raw \<longleftrightarrow> domain_map st' \<noteq> domain_map st \<or> global_selectors st' \<noteq> global_selectors st) \<and>
     (adds_invalid raw \<longleftrightarrow> invalid_lines st' \<noteq> invalid_lines st) \<and>
     (adds_skipped raw \<longleftrightarrow> skipped_lines st' \<noteq> skipped_lines st) \<and>
     length (invalid_lines st') = length (invalid_lines st) + (if adds_invalid raw then 1 else 0) \<and>
     length (skipped_lines st') = length (skipped_lines st) + (if adds_skipped raw then 1 else 0) \<and>
     ((\<forall>r \<in> rules_of st. clean_selector r) \<longrightarrow> (\<forall>r \<in> rules_of st'. clean_selector r))"
proof -
  from process_line_effect[of raw] obtain eff where eff: "effect_ok eff"
    "eff = Ignored \<longleftrightarrow> \<not> relevant_line raw"
    "\<forall>n st. process_line n raw st = Inr (apply_effect eff n (strip raw) st)" by blast
  note a = adds_by_effect[OF eff(1,3)]
  note obs = apply_effect_obs[OF eff(1), of n "strip raw" st]
  let ?st' = "apply_effect eff n (strip raw) st"
  have "process_line n raw st = Inr ?st'" using eff(3) by simp
  moreover have "adds_rule raw \<longleftrightarrow> domain_map ?st' \<noteq> domain_map st \<or> global_selectors ?st' \<noteq> global_selectors st"
    unfolding a using obs(1) .
  moreover have "adds_invalid raw \<longleftrightarrow> invalid_lines ?st' \<noteq> invalid_lines st"
    unfolding a obs(2) by (cases eff) simp_all
  moreover have "adds_skipped raw \<longleftrightarrow> skipped_lines ?st' \<noteq> skipped_lines st"
    unfolding a obs(3) by (cases eff) simp_all
  moreover have "length (invalid_lines ?st') = length (invalid_lines st) + (if adds_invalid raw then 1 else 0)"
    unfolding a obs(2) by (cases eff) simp_all
  moreover have "length (skipped_lines ?st') = length (skipped_lines st) + (if adds_skipped raw then 1 else 0)"
    unfolding a obs(3) by (cases eff) simp_all
  moreover have "(\<forall>r \<in> rules_of st. clean_selector r) \<longrightarrow> (\<forall>r \<in> rules_of ?st'. clean_selector r)"
    using apply_effect_clean[OF eff(1)] by blast
  ultimately show ?thesis by blast
qed

lemma parse_loop_total:
  "\<exists>st'. parse_loop n ls st = Inr st' \<and>
     length (invalid_lines st') = length (invalid_lines st) + length (filter adds_invalid ls) \<and>
     length (skipped_lines st') = length (skipped_lines st) + length (filter adds_skipped ls) \<and>
     ((\<forall>r \<in> rules_of st. clean_selector r) \<longrightarrow> (\<forall>r \<in> rules_of st'. clean_selector r))"
proof (induction ls arbitrary: n st)
  case Nil
  show ?case by simp
next
  case (Cons l ls)
  from process_line_step[of n l st] obtain s1 where s1: "process_line n l st = Inr s1"
    "length (invalid_lines s1) = length (invalid_lines st) + (if adds_invalid l then 1 else 0)"
    "length (skipped_lines s1) = length (skipped_lines st) + (if adds_skipped l then 1 else 0)"
    "(\<forall>r \<in> rules_of st. clean_selector r) \<longrightarrow> (\<forall>r \<in> rules_of s1. clean_selector r)"
    by blast
  from Cons[of "Suc n" s1] obtain s2 where s2: "parse_loop (Suc n) ls s1 = Inr s2"
    "length (invalid_lines s2) = length (invalid_lines s1) + length (filter adds_invalid ls)"
    "length (skipped_lines s2) = length (skipped_lines s1) + length (filter adds_skipped ls)"
    "(\<forall>r \<in> rules_of s1. clean_selector r) \<longrightarrow> (\<forall>r \<in> rules_of s2. clean_selector r)"
    by blast
  have "parse_loop n (l # ls) st = Inr s2" using s1(1) s2(1) by simp
  moreover have "length (invalid_lines s2) = length (invalid_lines st) + length (filter adds_invalid (l # ls))"
    using s1(2) s2(2) by simp
  moreover have "length (skipped_lines s2) = length (skipped_lines st) + length (filter adds_skipped (l # ls))"
    using s1(3) s2(3) by simp
  moreover have "(\<forall>r \<in> rules_of st. clean_selector r) \<longrightarrow> (\<forall>r \<in> rules_of s2. clean_selector r)"
    using s1(4) s2(4) by blast
  ultimately show ?case by blast
qed

lemma class_counts:
  "length (filter adds_rule ls) + length (filter adds_invalid ls) + length (filter adds_skipped ls)
     = length (filter relevant_line ls)"
proof (induction ls)
  case Nil
  show ?case by simp
next
  case (Cons l ls)
  show ?case using Cons line_classes[of l] by (cases "relevant_line l") auto
qed

lemma parse_loop_append:
  "parse_loop n (xs @ ys) st =
     (case parse_loop n xs st of Inl e \<Rightarrow> Inl e | Inr s \<Rightarrow> parse_loop (n + length xs) ys s)"
  by (induction xs arbitrary: n st) (auto split: sum.splits)

text \<open>The definitions that evaluate the parser on a concrete text.\<close>

lemmas eval_defs = parse_filters_def splitlines_def process_line_def try_body_def except_handler_def
  store_rule_def append_invalid_def append_skipped_def init_state_def strip_def lstrip_def rstrip_def
  isspace_def is_linebreak_def startswith_def str_split_def py_index_def re_match_style_def hide_decl_def
  Let_def

lemma splitlines_scan_no_newline:
  "l \<in> set (splitlines_scan cur s) \<Longrightarrow> CHR ''\<newline>'' \<notin> set cur \<Longrightarrow> CHR ''\<newline>'' \<notin> set l"
proof (induction cur s rule: splitlines_scan.induct)
  case (1 cur)
  then show ?case by (auto split: if_splits)
next
  case (2 cur c cs)
  have lb: "is_linebreak (CHR ''\<newline>'')" by (simp add: is_linebreak_def)
  show ?case
  proof (cases "c = CHR 0x0D \<and> cs \<noteq> [] \<and> hd cs = CHR 0x0A")
    case True
    with 2 show ?thesis by auto
  next
    case a: False
    show ?thesis
    proof (cases "is_linebreak c")
      case True
      with 2 a show ?thesis by auto
    next
      case False
      then have "c \<noteq> CHR ''\<newline>''" using lb by auto
      with 2 a False show ?thesis by auto
    qed
  qed
qed

lemma splitlines_no_newline: "l \<in> set (splitlines s) \<Longrightarrow> CHR ''\<newline>'' \<notin> set l"
  using splitlines_scan_no_newline[of l "[]" s] by (simp add: splitlines_def)

lemma five_lines_parse:
  "parse_filters ''a.com, b.com##.ad\<newline>! c\<newline>||x^\<newline>foo\<newline>##.g'' =
     Inr \<lparr>domain_map = [(''a.com'', [(''.ad'', ''display: none !important'')]),
                         (''b.com'', [(''.ad'', ''display: none !important'')])],
          global_selectors = [(''.g'', ''display: none !important'')],
          invalid_lines = [(4, ''foo'', ''Missing ## separator'')],
          skipped_lines = [(3, ''||x^'', ''Network filter'')]\<rparr>"
  by (simp add: eval_defs)

lemma five_lines_split:
  "splitlines (strip ''a.com, b.com##.ad\<newline>! c\<newline>||x^\<newline>foo\<newline>##.g'') =
     [''a.com, b.com##.ad'', ''! c'', ''||x^'', ''foo'', ''##.g'']"
  by (simp add: eval_defs)

lemma five_lines_relevant:
  "filter relevant_line [''a.com, b.com##.ad'', ''! c'', ''||x^'', ''foo'', ''##.g''] =
     [''a.com, b.com##.ad'', ''||x^'', ''foo'', ''##.g'']"
  by (simp add: relevant_line_def eval_defs)

text \<open>
  C1: \<open>parse_filters\<close> returns for every text, and every line that is not empty and not
  a comment after trimming does exactly one of three things: it stores a rule (globally or
  under its domains), it adds one entry to \<open>invalid_lines\<close>, or it adds one entry to
  \<open>skipped_lines\<close>; an empty line or a comment does none of them.  What a line does is
  the same in every state.  So the number of lines that store a rule, plus the length of
  \<open>invalid_lines\<close>, plus the length of \<open>skipped_lines\<close> is the number of lines that are
  not empty and not comments.
\<close>

theorem parse_classifies_each_line:
  "\<exists>r. parse_filters raw_text = Inr r \<and>
     length (filter adds_rule (splitlines (strip raw_text))) + length (invalid_lines r) + length (skipped_lines r)
       = length (filter relevant_line (splitlines (strip raw_text))) \<and>
     length (invalid_lines r) = length (filter adds_invalid (splitlines (strip raw_text))) \<and>
     length (skipped_lines r) = length (filter adds_skipped (splitlines (strip raw_text))) \<and>
     (\<forall>l. relevant_line l \<longrightarrow>
        (adds_rule l \<and> \<not> adds_invalid l \<and> \<not> adds_skipped l) \<or>
        (\<not> adds_rule l \<and> adds_invalid l \<and> \<not> adds_skipped l) \<or>
        (\<not> adds_rule l \<and> \<not> adds_invalid l \<and> adds_skipped l)) \<and>
     (\<forall>l. \<not> relevant_line l \<longrightarrow> \<not> adds_rule l \<and> \<not> adds_invalid l \<and> \<not> adds_skipped l) \<and>
     (\<forall>n l st. \<exists>st'. process_line n l st = Inr st' \<and>
        (adds_rule l \<longleftrightarrow> domain_map st' \<noteq> domain_map st \<or> global_selectors st' \<noteq> global_selectors st) \<and>
        (adds_invalid l \<longleftrightarrow> invalid_lines st' \<noteq> invalid_lines st) \<and>
        (adds_skipped l \<longleftrightarrow> skipped_lines st' \<noteq> skipped_lines st))"
proof -
  let ?ls = "splitlines (strip raw_text)"
  from parse_loop_total[of 1 ?ls init_state] obtain r where r: "parse_loop 1 ?ls init_state = Inr r"
    "length (invalid_lines r) = length (invalid_lines init_state) + length (filter adds_invalid ?ls)"
    "length (skipped_lines r) = length (skipped_lines init_state) + length (filter adds_skipped ?ls)"
    by blast
  have p: "parse_filters raw_text = Inr r"
    using r(1) by (simp add: parse_filters_def)
  have i: "length (invalid_lines r) = length (filter adds_invalid ?ls)"
    using r(2) by (simp add: init_state_def)
  have k: "length (skipped_lines r) = length (filter adds_skipped ?ls)"
    using r(3) by (simp add: init_state_def)
  have c: "length (filter adds_rule ?ls) + length (invalid_lines r) + length (skipped_lines r)
       = length (filter relevant_line ?ls)"
    unfolding i k by (rule class_counts)
  have one: "\<forall>l. relevant_line l \<longrightarrow>
        (adds_rule l \<and> \<not> adds_invalid l \<and> \<not> adds_skipped l) \<or>
        (\<not> adds_rule l \<and> adds_invalid l \<and> \<not> adds_skipped l) \<or>
        (\<not> adds_rule l \<and> \<not> adds_invalid l \<and> adds_skipped l)"
    using line_classes by blast
  have none: "\<forall>l. \<not> relevant_line l \<longrightarrow> \<not> adds_rule l \<and> \<not> adds_invalid l \<and> \<not> adds_skipped l"
    using line_classes by blast
  have step: "\<forall>n l st. \<exists>st'. process_line n l st = Inr st' \<and>
        (adds_rule l \<longleftrightarrow> domain_map st' \<noteq> domain_map st \<or> global_selectors st' \<noteq> global_selectors st) \<and>
        (adds_invalid l \<longleftrightarrow> invalid_lines st' \<noteq> invalid_lines st) \<and>
        (adds_skipped l \<longleftrightarrow> skipped_lines st' \<noteq> skipped_lines st)"
  proof (intro allI)
    fix n l st
    from process_line_step[of n l st] show "\<exists>st'. process_line n l st = Inr st' \<and>
        (adds_rule l \<longleftrightarrow> domain_map st' \<noteq> domain_map st \<or> global_selectors st' \<noteq> global_selectors st) \<and>
        (adds_invalid l \<longleftrightarrow> invalid_lines st' \<noteq> invalid_lines st) \<and>
        (adds_skipped l \<longleftrightarrow> skipped_lines st' \<noteq> skipped_lines st)"
      by blast
  qed
  from p c i k one none step show ?thesis by blast
qed

theorem parse_classifies_each_line_witness:
  "parse_filters ''a.com, b.com##.ad\<newline>! c\<newline>||x^\<newline>foo\<newline>##.g'' =
     Inr \<lparr>domain_map = [(''a.com'', [(''.ad'', ''display: none !important'')]),
                         (''b.com'', [(''.ad'', ''display: none !important'')])],
          global_selectors = [(''.g'', ''display: none !important'')],
          invalid_lines = [(4, ''foo'', ''Missing ## separator'')],
          skipped_lines = [(3, ''||x^'', ''Network filter'')]\<rparr> \<and>
   length (filter adds_rule [''a.com, b.com##.ad'', ''! c'', ''||x^'', ''foo'', ''##.g'']) + 1 + 1 = 4 \<and>
   relevant_line ''foo'' \<and> \<not> adds_rule ''foo'' \<and> adds_invalid ''foo'' \<and> \<not> adds_skipped ''foo'' \<and>
   \<not> relevant_line ''! c'' \<and> \<not> adds_rule ''! c'' \<and> \<not> adds_invalid ''! c'' \<and> \<not> adds_skipped ''! c''"
proof -
  from parse_classifies_each_line [of "''a.com, b.com##.ad\<newline>! c\<newline>||x^\<newline>foo\<newline>##.g''"]
  obtain r where r: "parse_filters ''a.com, b.com##.ad\<newline>! c\<newline>||x^\<newline>foo\<newline>##.g'' = Inr r"
    and cnt: "length (filter adds_rule (splitlines (strip ''a.com, b.com##.ad\<newline>! c\<newline>||x^\<newline>foo\<newline>##.g'')))
        + length (invalid_lines r) + length (skipped_lines r)
      = length (filter relevant_line (splitlines (strip ''a.com, b.com##.ad\<newline>! c\<newline>||x^\<newline>foo\<newline>##.g'')))"
    and one: "\<forall>l. relevant_line l \<longrightarrow>
        (adds_rule l \<and> \<not> adds_invalid l \<and> \<not> adds_skipped l) \<or>
        (\<not> adds_rule l \<and> adds_invalid l \<and> \<not> adds_skipped l) \<or>
        (\<not> adds_rule l \<and> \<not> adds_invalid l \<and> adds_skipped l)"
    and none: "\<forall>l. \<not> relevant_line l \<longrightarrow> \<not> adds_rule l \<and> \<not> adds_invalid l \<and> \<not> adds_skipped l"
    by blast
  have rv: "r = \<lparr>domain_map = [(''a.com'', [(''.ad'', ''display: none !important'')]),
                         (''b.com'', [(''.ad'', ''display: none !important'')])],
          global_selectors = [(''.g'', ''display: none !important'')],
          invalid_lines = [(4, ''foo'', ''Missing ## separator'')],
          skipped_lines = [(3, ''||x^'', ''Network filter'')]\<rparr>"
    using r unfolding five_lines_parse by simp
  have c: "length (filter adds_rule [''a.com, b.com##.ad'', ''! c'', ''||x^'', ''foo'', ''##.g'']) + 1 + 1 = 4"
    using cnt unfolding five_lines_split five_lines_relevant rv by simp
  have f: "relevant_line ''foo''" by (simp add: relevant_line_def eval_defs)
  have fi: "adds_invalid ''foo''" by (simp add: adds_invalid_def eval_defs)
  from one f fi have f2: "\<not> adds_rule ''foo'' \<and> \<not> adds_skipped ''foo''" by blast
  have n: "\<not> relevant_line ''! c''" by (simp add: relevant_line_def eval_defs)
  with none have n2: "\<not> adds_rule ''! c'' \<and> \<not> adds_invalid ''! c'' \<and> \<not> adds_skipped ''! c''" by blast
  show ?thesis using five_lines_parse c f fi f2 n n2 by blast
qed

text \<open>
  C10: every rule that \<open>parse_filters\<close> puts into \<open>global_selectors\<close> or under a domain
  of \<open>domain_map\<close> has a selector that is not empty and neither starts nor ends with
  whitespace.  The declaration may be empty: \<open>##a:style( )\<close> gives the rule with selector
  \<open>a\<close> and the empty declaration.
\<close>

theorem parse_rules_clean:
  "(\<exists>r. parse_filters raw_text = Inr r) \<and>
   (\<forall>r. parse_filters raw_text = Inr r \<longrightarrow>
      (\<forall>rule \<in> set (global_selectors r).
         fst rule \<noteq> [] \<and> \<not> isspace (hd (fst rule)) \<and> \<not> isspace (last (fst rule))) \<and>
      (\<forall>entry \<in> set (domain_map r). \<forall>rule \<in> set (snd entry).
         fst rule \<noteq> [] \<and> \<not> isspace (hd (fst rule)) \<and> \<not> isspace (last (fst rule)))) \<and>
   parse_filters ''##a:style( )'' = Inr (init_state\<lparr>global_selectors := [(''a'', [])]\<rparr>)"
proof -
  from parse_loop_total[of 1 "splitlines (strip raw_text)" init_state]
  obtain r where r: "parse_loop 1 (splitlines (strip raw_text)) init_state = Inr r"
    "(\<forall>x \<in> rules_of init_state. clean_selector x) \<longrightarrow> (\<forall>x \<in> rules_of r. clean_selector x)"
    by blast
  have "\<forall>x \<in> rules_of init_state. clean_selector x"
    by (simp add: rules_of_def init_state_def)
  with r(2) have cl: "\<forall>x \<in> rules_of r. clean_selector x" by blast
  have p: "parse_filters raw_text = Inr r" using r(1) by (simp add: parse_filters_def)
  have g: "\<forall>rule \<in> set (global_selectors r).
         fst rule \<noteq> [] \<and> \<not> isspace (hd (fst rule)) \<and> \<not> isspace (last (fst rule))"
    using cl by (auto simp: rules_of_def clean_selector_def)
  have d: "\<forall>entry \<in> set (domain_map r). \<forall>rule \<in> set (snd entry).
         fst rule \<noteq> [] \<and> \<not> isspace (hd (fst rule)) \<and> \<not> isspace (last (fst rule))"
    using cl by (auto simp: rules_of_def clean_selector_def)
  have e: "parse_filters ''##a:style( )'' = Inr (init_state\<lparr>global_selectors := [(''a'', [])]\<rparr>)"
    by (simp add: eval_defs)
  show ?thesis using p g d e by simp
qed

theorem parse_rules_clean_witness:
  "parse_filters ''a.com, b.com##.ad\<newline>! c\<newline>||x^\<newline>foo\<newline>##.g'' =
     Inr \<lparr>domain_map = [(''a.com'', [(''.ad'', ''display: none !important'')]),
                         (''b.com'', [(''.ad'', ''display: none !important'')])],
          global_selectors = [(''.g'', ''display: none !important'')],
          invalid_lines = [(4, ''foo'', ''Missing ## separator'')],
          skipped_lines = [(3, ''||x^'', ''Network filter'')]\<rparr> \<and>
   fst (''.g'', ''display: none !important'') \<noteq> [] \<and>
   \<not> isspace (hd (fst (''.g'', ''display: none !important''))) \<and>
   \<not> isspace (last (fst (''.g'', ''display: none !important''))) \<and>
   fst (''.ad'', ''display: none !important'') \<noteq> [] \<and>
   \<not> isspace (hd (fst (''.ad'', ''display: none !important''))) \<and>
   \<not> isspace (last (fst (''.ad'', ''display: none !important'')))"
proof -
  note t = parse_rules_clean [of "''a.com, b.com##.ad\<newline>! c\<newline>||x^\<newline>foo\<newline>##.g''",
      THEN conjunct2, THEN conjunct1, rule_format, OF five_lines_parse]
  have g: "fst (''.g'', ''display: none !important'') \<noteq> [] \<and>
   \<not> isspace (hd (fst (''.g'', ''display: none !important''))) \<and>
   \<not> isspace (last (fst (''.g'', ''display: none !important'')))"
    using t [THEN conjunct1, rule_format, of "(''.g'', ''display: none !important'')"] by simp
  have d: "fst (''.ad'', ''display: none !important'') \<noteq> [] \<and>
   \<not> isspace (hd (fst (''.ad'', ''display: none !important''))) \<and>
   \<not> isspace (last (fst (''.ad'', ''display: none !important'')))"
    using t [THEN conjunct2, rule_format,
        of "(''a.com'', [(''.ad'', ''display: none !important'')])" "(''.ad'', ''display: none !important'')"]
    by simp
  show ?thesis using five_lines_parse g d by blast
qed

text \<open>
  C9: \<open>parse_filters\<close> never raises: it returns a result for every text, and one turn of
  the loop returns a state for every line in every state.  A failure of the guarded block
  is turned by the handler into an entry of \<open>invalid_lines\<close> that holds the text of the
  failure (and the guarded block itself does not fail on a line with the separator).
  Whatever a line is, the lines after it are processed, from the state that line leaves.
\<close>

theorem parse_never_raises:
  "(\<exists>r. parse_filters raw_text = Inr r) \<and>
   (\<forall>n l st. \<exists>st'. process_line n l st = Inr st') \<and>
   (\<forall>e n line st. except_handler (Inl e) n line st = append_invalid (n, line, str_of_error e) st) \<and>
   (\<forall>n line st. str_in ''##'' line \<longrightarrow> (\<exists>st'. try_body n line st = Inr st')) \<and>
   (\<forall>n before l after st. \<exists>s1 s2.
      parse_loop n before st = Inr s1 \<and>
      process_line (n + length before) l s1 = Inr s2 \<and>
      parse_loop n (before @ l # after) st = parse_loop (Suc (n + length before)) after s2 \<and>
      (\<exists>r. parse_loop (Suc (n + length before)) after s2 = Inr r))"
proof (intro conjI allI impI)
  show "\<exists>r. parse_filters raw_text = Inr r"
    using parse_loop_total[of 1 "splitlines (strip raw_text)" init_state]
    by (auto simp: parse_filters_def)
  show "\<exists>st'. process_line n l st = Inr st'" for n l st
    using process_line_step[of n l st] by blast
  show "except_handler (Inl e) n line st = append_invalid (n, line, str_of_error e) st" for e n line st
    by (simp add: except_handler_def)
  show "\<exists>st'. try_body n line st = Inr st'" if "str_in ''##'' line" for n line st
  proof -
    from that obtain dp sp where "find_first ''##'' line = Some (dp, sp)"
      by (auto simp: str_in_find_first)
    from try_body_effect[OF this] show ?thesis by blast
  qed
  show "\<exists>s1 s2. parse_loop n before st = Inr s1 \<and>
      process_line (n + length before) l s1 = Inr s2 \<and>
      parse_loop n (before @ l # after) st = parse_loop (Suc (n + length before)) after s2 \<and>
      (\<exists>r. parse_loop (Suc (n + length before)) after s2 = Inr r)" for n before l after st
  proof -
    from parse_loop_total[of n before st] obtain s1 where s1: "parse_loop n before st = Inr s1" by blast
    from process_line_step[of "n + length before" l s1] obtain s2 where
      s2: "process_line (n + length before) l s1 = Inr s2" by blast
    from parse_loop_total[of "Suc (n + length before)" after s2] obtain r where
      r: "parse_loop (Suc (n + length before)) after s2 = Inr r" by blast
    have "parse_loop n (before @ l # after) st = parse_loop (Suc (n + length before)) after s2"
      using s1 s2 by (simp add: parse_loop_append)
    with s1 s2 r show ?thesis by blast
  qed
qed

theorem parse_never_raises_witness:
  "str_in ''##'' ''a.com##.ad'' \<and>
   (\<exists>st'. try_body 1 ''a.com##.ad'' init_state = Inr st') \<and>
   (\<exists>r. parse_filters ''a.com##.ad\<newline>foo'' = Inr r) \<and>
   except_handler (Inl IndexError) 7 ''x'' init_state =
     init_state\<lparr>invalid_lines := [(7, ''x'', ''list index out of range'')]\<rparr>"
proof -
  note t = parse_never_raises [of "''a.com##.ad\<newline>foo''"]
  have h: "str_in ''##'' ''a.com##.ad''" by simp
  have b: "\<exists>st'. try_body 1 ''a.com##.ad'' init_state = Inr st'"
    using t [THEN conjunct2, THEN conjunct2, THEN conjunct2, THEN conjunct1, rule_format, OF h] .
  have p: "\<exists>r. parse_filters ''a.com##.ad\<newline>foo'' = Inr r"
    using t [THEN conjunct1] .
  have e: "except_handler (Inl IndexError) 7 ''x'' init_state =
     init_state\<lparr>invalid_lines := [(7, ''x'', ''list index out of range'')]\<rparr>"
    using t [THEN conjunct2, THEN conjunct2, THEN conjunct1, rule_format, of IndexError 7 "''x''" init_state]
    by (simp add: append_invalid_def str_of_error_def init_state_def)
  show ?thesis using h b p e by blast
qed

lemma set_strip: "set (strip s) \<subseteq> set s"
proof -
  have "set (rstrip (lstrip s)) \<subseteq> set (lstrip s)"
    using prefix_rstrip by (rule set_mono_prefix)
  moreover have "set (lstrip s) \<subseteq> set s"
    unfolding lstrip_def by (rule set_dropWhileD[THEN subsetI]) 
  ultimately show ?thesis by (auto simp: strip_def)
qed

lemma process_line_reaches_try:
  assumes "relevant_line raw"
    and "\<not> (startswith (strip raw) ''||'' \<or> startswith (strip raw) ''@@'' \<or> startswith (strip raw) ''/'')"
    and "find_first ''##'' (strip raw) = Some (dp, sp)"
    and "\<not> str_in ''$'' dp"
  shows "process_line n raw st = Inr (except_handler (try_body n (strip raw) st) n (strip raw) st)"
proof -
  have h: "str_in ''##'' (strip raw)" using assms(3) by (simp add: str_in_find_first)
  have pre: "py_index (split_scan ''##'' None [] (strip raw)) 0 = Inr dp"
    using split_scan_hd[of "''##''" "[]" "strip raw"] assms(3)
    by (simp add: py_index_0 split_scan_nonempty)
  show ?thesis
    using assms(1,2,4) h pre
    by (simp add: process_line_def relevant_line_def Let_def str_split_ok)
qed

text \<open>
  C2, as amended: for a line that reaches the handling of \<open>:style(\<close> (not a comment, not
  a network filter, no dollar sign before the first \<open>##\<close>, and a trimmed selector part that
  is not empty and contains \<open>:style(\<close>), the pattern splits the trimmed selector part at the
  FIRST \<open>:style(\<close> that gives the shape "one or more characters, \<open>:style(\<close>, one or more
  characters, closing parenthesis at the end": the selector is the shortest one for which
  the shape holds.  The rule stored is the trimmed selector with the trimmed declaration.
  When the selector part has the shape for no selector, the line goes to \<open>invalid_lines\<close>
  with the reason \<open>Invalid :style() syntax\<close>.  A line of the parser's input has no newline
  in it (\<open>splitlines_no_newline\<close>).
\<close>

theorem style_rule_first_match:
  assumes "CHR ''\<newline>'' \<notin> set raw"
    and "relevant_line raw"
    and "\<not> (startswith (strip raw) ''||'' \<or> startswith (strip raw) ''@@'' \<or> startswith (strip raw) ''/'')"
    and "find_first ''##'' (strip raw) = Some (dp, sp)"
    and "\<not> str_in ''$'' dp"
    and "strip sp \<noteq> []"
    and "str_in '':style('' (strip sp)"
  shows "case re_match_style (strip sp) of
           Some (selector, css_props) \<Rightarrow>
             style_shape (strip sp) selector css_props \<and>
             (\<forall>selector' css_props'. style_shape (strip sp) selector' css_props' \<longrightarrow>
                 length selector \<le> length selector') \<and>
             (\<exists>st'. store_rule (strip selector, strip css_props) (strip dp) st = Inr st' \<and>
                    process_line n raw st = Inr st')
         | None \<Rightarrow>
             (\<forall>selector css_props. \<not> style_shape (strip sp) selector css_props) \<and>
             process_line n raw st =
               Inr (append_invalid (n, strip raw, ''Invalid :style() syntax'') st)"
proof -
  note reach = process_line_reaches_try[OF assms(2,3,4,5), of n st]
  note body = try_body_split[OF assms(4), of n st]
  have "strip raw = dp @ ''##'' @ sp" using assms(4) by (rule find_first_split)
  then have "set sp \<subseteq> set (strip raw)" by auto
  then have nl: "CHR ''\<newline>'' \<notin> set (strip sp)"
    using assms(1) set_strip[of raw] set_strip[of sp] by blast
  show ?thesis
  proof (cases "re_match_style (strip sp)")
    case None
    then have "\<not> style_shape (strip sp) u d" for u d
      unfolding re_match_style_def using lazy_None[OF nl] by blast
    moreover have "process_line n raw st =
        Inr (append_invalid (n, strip raw, ''Invalid :style() syntax'') st)"
      unfolding reach body using None assms(6,7) by (simp add: except_handler_def)
    ultimately show ?thesis using None by simp
  next
    case (Some g)
    obtain g1 g2 where g: "g = (g1, g2)" by (cases g)
    from lazy_Some[OF nl Some[unfolded g re_match_style_def]]
    have sh: "style_shape (strip sp) g1 g2"
      and mn: "\<forall>u' d'. style_shape (strip sp) u' d' \<longrightarrow> length g1 \<le> length u'" by auto
    have "clean_selector (strip g1, strip g2)"
      using re_match_clean[OF Some[unfolded g] assms(6)] strip_ends[OF assms(6)] by simp
    from store_rule_effect[OF this, of "strip dp"] obtain eff where
      eff: "\<forall>n line st. store_rule (strip g1, strip g2) (strip dp) st = Inr (apply_effect eff n line st)"
      by blast
    then have s: "store_rule (strip g1, strip g2) (strip dp) st = Inr (apply_effect eff n (strip raw) st)"
      by blast
    have "process_line n raw st = Inr (apply_effect eff n (strip raw) st)"
      unfolding reach body using Some g assms(6,7) s by (simp add: except_handler_def)
    with s sh mn show ?thesis using Some g by simp
  qed
qed

lemma style_example_match: "re_match_style ''div:style(color: red !important)'' = Some (''div'', ''color: red !important'')"
  by (simp add: re_match_style_def)

theorem style_rule_first_match_witness:
  "CHR ''\<newline>'' \<notin> set ''example.com##div:style(color: red !important)'' \<and>
   relevant_line ''example.com##div:style(color: red !important)'' \<and>
   find_first ''##'' (strip ''example.com##div:style(color: red !important)'') =
      Some (''example.com'', ''div:style(color: red !important)'') \<and>
   \<not> str_in ''$'' ''example.com'' \<and>
   str_in '':style('' (strip ''div:style(color: red !important)'') \<and>
   re_match_style (strip ''div:style(color: red !important)'') = Some (''div'', ''color: red !important'') \<and>
   style_shape (strip ''div:style(color: red !important)'') ''div'' ''color: red !important'' \<and>
   process_line 5 ''example.com##div:style(color: red !important)'' init_state =
     Inr (init_state\<lparr>domain_map := [(''example.com'', [(''div'', ''color: red !important'')])]\<rparr>)"
proof -
  let ?raw = "''example.com##div:style(color: red !important)''"
  have s[simp]: "strip ?raw = ?raw" "strip ''div:style(color: red !important)'' = ''div:style(color: red !important)''"
    by (simp_all add: strip_def lstrip_def rstrip_def isspace_def)
  have h1: "CHR ''\<newline>'' \<notin> set ?raw" by simp
  have h2: "relevant_line ?raw" by (simp add: relevant_line_def startswith_def)
  have h3: "\<not> (startswith (strip ?raw) ''||'' \<or> startswith (strip ?raw) ''@@'' \<or> startswith (strip ?raw) ''/'')"
    by (simp add: startswith_def)
  have h4: "find_first ''##'' (strip ?raw) = Some (''example.com'', ''div:style(color: red !important)'')"
    by simp
  have h5: "\<not> str_in ''$'' ''example.com''" by simp
  have h6: "strip ''div:style(color: red !important)'' \<noteq> []" by simp
  have h7: "str_in '':style('' (strip ''div:style(color: red !important)'')" by simp
  have m: "re_match_style (strip ''div:style(color: red !important)'') = Some (''div'', ''color: red !important'')"
    by (simp add: style_example_match)
  note t = style_rule_first_match[OF h1 h2 h3 h4 h5 h6 h7, where n = 5 and st = init_state, unfolded m, simplified]
  have sh: "style_shape (strip ''div:style(color: red !important)'') ''div'' ''color: red !important''"
    using t by simp
  have "store_rule (strip ''div'', strip ''color: red !important'') (strip ''example.com'') init_state =
      Inr (init_state\<lparr>domain_map := [(''example.com'', [(''div'', ''color: red !important'')])]\<rparr>)"
    by (simp add: eval_defs)
  with t have p: "process_line 5 ?raw init_state =
     Inr (init_state\<lparr>domain_map := [(''example.com'', [(''div'', ''color: red !important'')])]\<rparr>)"
    by auto
  show ?thesis using h1 h2 h4 h5 h7 m sh p by blast
qed

text \<open>
  C2 as stated fails: with two \<open>:style(\<close> the selector ends at the first one, not at the
  last one.
\<close>

theorem style_takes_first_not_last:
  "re_match_style ''a:style(b):style(c)'' = Some (''a'', ''b):style(c'') \<and>
   style_split_last ''a:style(b):style(c)'' = Some (''a:style(b)'', ''c'') \<and>
   process_line 1 ''x.com##a:style(b):style(c)'' init_state =
     Inr (init_state\<lparr>domain_map := [(''x.com'', [(''a'', ''b):style(c'')])]\<rparr>) \<and>
   process_line 1 ''x.com##a:style(b):style(c)'' init_state \<noteq>
     Inr (init_state\<lparr>domain_map := [(''x.com'', [(''a:style(b)'', ''c'')])]\<rparr>)"
proof -
  have a: "re_match_style ''a:style(b):style(c)'' = Some (''a'', ''b):style(c'')"
    by (simp add: re_match_style_def)
  have b: "style_split_last ''a:style(b):style(c)'' = Some (''a:style(b)'', ''c'')"
    by (simp add: style_split_last_def)
  have c: "process_line 1 ''x.com##a:style(b):style(c)'' init_state =
     Inr (init_state\<lparr>domain_map := [(''x.com'', [(''a'', ''b):style(c'')])]\<rparr>)"
    by (simp add: eval_defs)
  show ?thesis unfolding c using a b by (simp add: init_state_def)
qed

end
